theory Spec2Isabelle
  imports Main "HOL-Library.AList"
begin

section \<open>Python values and exceptions\<close>

text \<open>
  Identifiers (marks such as \<open>:1\<close>, or hashes), refs, file contents and blob payloads are
  Python 2 byte strings: \<open>string\<close>. A dictionary whose key order is observed by the code
  (\<open>keys()\<close>, \<open>iteritems()\<close>, \<open>itervalues()\<close>) or whose emptiness is tested is an association
  list, changed only through \<open>AList.update\<close> and \<open>AList.delete\<close>; the list order stands
  for the hash order of the Python dictionary, which the code does not control. Dictionaries
  that are only read and written by key are maps.

  Every exception the modelled code can raise is a value of \<open>error\<close>; a method returns
  its outcome together with the state it leaves behind, since a Python method that raises
  keeps the mutations it made before raising.
\<close>

datatype error = KeyError | IndexError | NameError | AttributeError | IOError | OSError
  | ValueError

section \<open>cache\_manager.py\<close>

subsection \<open>Commands read by the cache manager\<close>

text \<open>
  The command classes live in \<open>commands.py\<close>, which is not among the sources; the records
  below carry exactly the attributes that \<open>cache_manager.py\<close> and
  \<open>processors/info_processor.py\<close> read from them.
\<close>

datatype FileCommand =
    FileModifyCommand (path: string) (kind: string) (is_executable: bool)
      (dataref: "string option")
  | FileDeleteCommand string
  | FileCopyCommand (src_path: string) (dest_path: string)
  | FileRenameCommand (old_path: string) (new_path: string)
  | FileDeleteAllCommand

record CommitCommand =
  ref :: string
  cmd_id :: string
  author :: "string option"
  committer :: string
  cmd_from :: "string option"
  merges :: "string list"
  file_iter :: "FileCommand list"

subsection \<open>State\<close>

text \<open>
  The fields of \<open>CacheManager\<close> and of its \<open>_Cleanup\<close> helper, followed by the part of the
  file system they own. \<open>_Cleanup.disk_blobs\<close> is the very dictionary object held in
  \<open>CacheManager._disk_blobs\<close>, so the helper only records whether its reference is still
  set (\<open>cleanup_disk_blobs\<close>). The small-blob file is an anonymous
  \<open>tempfile.TemporaryFile\<close>: it exists exactly while its handle is open, and the handle is
  modelled by the bytes written so far. \<open>fs_tempdir\<close> says whether the directory made by
  \<open>mkdtemp\<close> exists, and \<open>fs_files\<close> holds the files made in it by \<open>mkstemp\<close>, named
  by numbers, with their contents.
\<close>

type_synonym disk_info = "nat \<times> nat \<times> nat option"

record CacheManager =
  blobs :: "(string \<times> string) list"
  sticky_blobs :: "(string \<times> string) list"
  sticky_memory_bytes :: int
  tempdir :: "string option"
  disk_blobs :: "(string \<times> disk_info) list"
  cleanup_disk_blobs :: bool
  cleanup_tempdir :: "string option"
  cleanup_small_blobs :: "string option"
  last_ref :: "string option"
  last_ids :: "string \<rightharpoonup> string"
  heads :: "string \<rightharpoonup> string set"
  blob_ref_counts :: "(string \<times> int) list"
  fs_tempdir :: bool
  fs_files :: "(nat \<times> string) list"

definition small_blob_threshold :: nat where
  "small_blob_threshold = 75 * 1024"

definition sticky_cache_size :: int where
  "sticky_cache_size = 300 * 1024 * 1024"

definition sticky_flushed_size :: int where
  "sticky_flushed_size = 100 * 1024 * 1024"

text \<open>
  \<open>__init__(info)\<close>. The hint structure \<open>info['Blob reference counts']\<close> maps a count to a
  list of blob ids; \<open>info\<close> being \<open>None\<close>, or lacking that section, leaves the reference
  counts empty.
\<close>

fun seed_counts :: "(int \<times> string list) list \<Rightarrow> (string \<times> int) list \<Rightarrow> (string \<times> int) list"
  where
  "seed_counts [] rc = rc"
| "seed_counts ((n, blob_list) # rest) rc =
     seed_counts rest (fold (\<lambda>b acc. AList.update b n acc) blob_list rc)"

definition CacheManager_init :: "(int \<times> string list) list option \<Rightarrow> CacheManager" where
  "CacheManager_init info =
     \<lparr> blobs = [], sticky_blobs = [], sticky_memory_bytes = 0, tempdir = None,
       disk_blobs = [], cleanup_disk_blobs = True, cleanup_tempdir = None,
       cleanup_small_blobs = None, last_ref = None, last_ids = Map.empty,
       heads = Map.empty,
       blob_ref_counts =
         (case info of None \<Rightarrow> [] | Some blobs_by_counts \<Rightarrow> seed_counts blobs_by_counts []),
       fs_tempdir = False, fs_files = [] \<rparr>"

subsection \<open>The blob store\<close>

text \<open>
  \<open>len(sticky_blobs[k])\<close>, the key of the sort in \<open>_flush_blobs_to_disk\<close>; it is only
  ever applied to keys of the dictionary.
\<close>

definition blob_len :: "(string \<times> string) list \<Rightarrow> string \<Rightarrow> nat" where
  "blob_len sticky k = (case map_of sticky k of None \<Rightarrow> 0 | Some blob \<Rightarrow> length blob)"

text \<open>\<open>tempfile.mkstemp\<close> returns the name of a file that did not exist before.\<close>

definition mkstemp :: "(nat \<times> string) list \<Rightarrow> nat" where
  "mkstemp files = Suc (Max (insert 0 (fst ` set files)))"

definition mkdtemp_name :: string where
  "mkdtemp_name = ''bzr_fastimport_blobs-''"

text \<open>
  One round of the \<open>while\<close> loop of \<open>_flush_blobs_to_disk\<close>, for the id just popped. The
  counters \<open>count\<close>, \<open>bytes\<close> and \<open>n_small_bytes\<close> feed only the closing \<open>trace.note\<close> and
  are left out.
\<close>

definition flush_one :: "string \<Rightarrow> CacheManager \<Rightarrow> (error + unit) \<times> CacheManager" where
  "flush_one i s =
     (case map_of (sticky_blobs s) i of
        None \<Rightarrow> (Inl KeyError, s)
      | Some blob \<Rightarrow>
          (let n_bytes = length blob;
               s1 = s\<lparr> sticky_blobs := AList.delete i (sticky_blobs s),
                        sticky_memory_bytes := sticky_memory_bytes s - int n_bytes \<rparr>
           in if n_bytes < small_blob_threshold then
                (case cleanup_small_blobs s1 of
                   None \<Rightarrow> (Inl AttributeError, s1)
                 | Some f \<Rightarrow>
                     (Inr (), s1\<lparr> disk_blobs :=
                                     AList.update i (length f, n_bytes, None) (disk_blobs s1),
                                   cleanup_small_blobs := Some (f @ blob) \<rparr>))
              else if fs_tempdir s1 then
                (let name = mkstemp (fs_files s1)
                 in (Inr (), s1\<lparr> fs_files := AList.update name blob (fs_files s1),
                                  disk_blobs :=
                                    AList.update i (0, n_bytes, Some name) (disk_blobs s1) \<rparr>))
              else (Inl OSError, s1)))"

text \<open>
  The loop itself: \<open>blobs.pop()\<close> takes the last element of the sorted key list and raises
  \<open>IndexError\<close> on an empty list.
\<close>

function flush_loop :: "string list \<Rightarrow> CacheManager \<Rightarrow> (error + unit) \<times> CacheManager" where
  "flush_loop pending s =
     (if sticky_memory_bytes s > sticky_flushed_size then
        (if pending = [] then (Inl IndexError, s)
         else (case flush_one (last pending) s of
                 (Inl e, s1) \<Rightarrow> (Inl e, s1)
               | (Inr u, s1) \<Rightarrow> flush_loop (butlast pending) s1))
      else (Inr (), s))"
  by pat_completeness auto
termination
  by (relation "measure (\<lambda>(pending, s). length pending)") auto

declare flush_loop.simps [simp del]

text \<open>
  The block \<open>if self._tempdir is None\<close>: the directory is made and the small-blob file
  opened the first time the manager flushes.
\<close>

definition open_tempdir :: "CacheManager \<Rightarrow> CacheManager" where
  "open_tempdir s =
     (if tempdir s = None
      then s\<lparr> tempdir := Some mkdtemp_name, cleanup_tempdir := Some mkdtemp_name,
               cleanup_small_blobs := Some [], fs_tempdir := True \<rparr>
      else s)"

definition flush_blobs_to_disk :: "CacheManager \<Rightarrow> (error + unit) \<times> CacheManager" where
  "flush_blobs_to_disk s =
     (let pending = sort_key (blob_len (sticky_blobs s)) (map fst (sticky_blobs s))
      in flush_loop pending (open_tempdir s))"

definition store_blob :: "string \<Rightarrow> string \<Rightarrow> CacheManager \<Rightarrow> (error + unit) \<times> CacheManager"
  where
  "store_blob i data s =
     (if blob_ref_counts s = [] \<or> map_of (blob_ref_counts s) i \<noteq> None then
        (let s1 = s\<lparr> sticky_blobs := AList.update i data (sticky_blobs s),
                      sticky_memory_bytes := sticky_memory_bytes s + int (length data) \<rparr>
         in if sticky_memory_bytes s1 > sticky_cache_size then flush_blobs_to_disk s1
            else (Inr (), s1))
      else if data = [] then
        (Inr (), s\<lparr> sticky_blobs := AList.update i data (sticky_blobs s) \<rparr>)
      else (Inr (), s\<lparr> blobs := AList.update i data (blobs s) \<rparr>))"

text \<open>
  \<open>_decref(id, cache, fn)\<close>: \<open>cache\<close> is one of the two dictionaries of the manager, passed
  by reference; the model passes its name.
\<close>

datatype cache_name = StickyCache | DiskCache

definition cache_has :: "cache_name \<Rightarrow> string \<Rightarrow> CacheManager \<Rightarrow> bool" where
  "cache_has c i s =
     (case c of StickyCache \<Rightarrow> map_of (sticky_blobs s) i \<noteq> None
              | DiskCache \<Rightarrow> map_of (disk_blobs s) i \<noteq> None)"

definition cache_del :: "cache_name \<Rightarrow> string \<Rightarrow> CacheManager \<Rightarrow> CacheManager" where
  "cache_del c i s =
     (case c of StickyCache \<Rightarrow> s\<lparr> sticky_blobs := AList.delete i (sticky_blobs s) \<rparr>
              | DiskCache \<Rightarrow> s\<lparr> disk_blobs := AList.delete i (disk_blobs s) \<rparr>)"

definition decref ::
  "string \<Rightarrow> cache_name \<Rightarrow> nat option \<Rightarrow> CacheManager \<Rightarrow> (error + bool) \<times> CacheManager" where
  "decref i cache fn s =
     (if blob_ref_counts s = [] then (Inr False, s)
      else (case map_of (blob_ref_counts s) i of
              None \<Rightarrow> (Inr False, s)
            | Some c \<Rightarrow>
                (let count = c - 1
                 in if count \<le> 0 then
                      (if \<not> cache_has cache i s then (Inl KeyError, s)
                       else (let s1 = cache_del cache i s
                             in (case fn of
                                   None \<Rightarrow>
                                     (Inr True, s1\<lparr> blob_ref_counts :=
                                        AList.delete i (blob_ref_counts s1) \<rparr>)
                                 | Some name \<Rightarrow>
                                     (if map_of (fs_files s1) name = None then (Inl OSError, s1)
                                      else (Inr True,
                                            s1\<lparr> fs_files := AList.delete name (fs_files s1),
                                                blob_ref_counts :=
                                                  AList.delete i (blob_ref_counts s1) \<rparr>)))))
                    else (Inr False,
                          s\<lparr> blob_ref_counts := AList.update i count (blob_ref_counts s) \<rparr>))))"

definition fetch_blob :: "string \<Rightarrow> CacheManager \<Rightarrow> (error + string) \<times> CacheManager" where
  "fetch_blob i s =
     (case map_of (blobs s) i of
        Some data \<Rightarrow> (Inr data, s\<lparr> blobs := AList.delete i (blobs s) \<rparr>)
      | None \<Rightarrow>
          (case map_of (disk_blobs s) i of
             Some (offset, n_bytes, fn) \<Rightarrow>
               (case fn of
                  None \<Rightarrow>
                    (case cleanup_small_blobs s of
                       None \<Rightarrow> (Inl AttributeError, s)
                     | Some f \<Rightarrow>
                         (let content = take n_bytes (drop offset f)
                          in (case decref i DiskCache fn s of
                                (Inl e, s1) \<Rightarrow> (Inl e, s1)
                              | (Inr b, s1) \<Rightarrow> (Inr content, s1))))
                | Some name \<Rightarrow>
                    (case map_of (fs_files s) name of
                       None \<Rightarrow> (Inl IOError, s)
                     | Some content \<Rightarrow>
                         (case decref i DiskCache fn s of
                            (Inl e, s1) \<Rightarrow> (Inl e, s1)
                          | (Inr b, s1) \<Rightarrow> (Inr content, s1))))
           | None \<Rightarrow>
               (case map_of (sticky_blobs s) i of
                  None \<Rightarrow> (Inl KeyError, s)
                | Some content \<Rightarrow>
                    (case decref i StickyCache None s of
                       (Inl e, s1) \<Rightarrow> (Inl e, s1)
                     | (Inr True, s1) \<Rightarrow>
                         (Inr content,
                          s1\<lparr> sticky_memory_bytes :=
                                sticky_memory_bytes s1 - int (length content) \<rparr>)
                     | (Inr False, s1) \<Rightarrow> (Inr content, s1)))))"

text \<open>\<open>n\<close> calls of \<open>fetch_blob\<close> for the same id, one after the other, with their outcomes.\<close>

fun fetch_n :: "nat \<Rightarrow> string \<Rightarrow> CacheManager \<Rightarrow> (error + string) list \<times> CacheManager" where
  "fetch_n 0 i s = ([], s)"
| "fetch_n (Suc n) i s =
     (case fetch_blob i s of (r, s1) \<Rightarrow> (case fetch_n n i s1 of (rs, s2) \<Rightarrow> (r # rs, s2)))"

subsection \<open>\_Cleanup.finalize\<close>

text \<open>
  The loop over \<open>disk_blobs.itervalues()\<close>: \<open>os.unlink\<close> raises \<open>OSError\<close> for a file that
  does not exist.
\<close>

fun unlink_all :: "disk_info list \<Rightarrow> (nat \<times> string) list \<Rightarrow> (error + unit) \<times> (nat \<times> string) list"
  where
  "unlink_all [] files = (Inr (), files)"
| "unlink_all ((offset, n_bytes, fn) # rest) files =
     (case fn of
        None \<Rightarrow> unlink_all rest files
      | Some name \<Rightarrow>
          (if map_of files name = None then (Inl OSError, files)
           else unlink_all rest (AList.delete name files)))"

text \<open>
  The last statement of \<open>finalize\<close> calls \<open>shutils.rmtree\<close>; the module imports \<open>shutil\<close>,
  and no name \<open>shutils\<close> is bound, so reaching the statement raises \<open>NameError\<close>.
\<close>

definition finalize :: "CacheManager \<Rightarrow> (error + unit) \<times> CacheManager" where
  "finalize s =
     (case (if cleanup_disk_blobs s then
              (case unlink_all (map snd (disk_blobs s)) (fs_files s) of
                 (Inl e, files) \<Rightarrow> (Inl e, s\<lparr> fs_files := files \<rparr>)
               | (Inr u, files) \<Rightarrow> (Inr (), s\<lparr> fs_files := files, cleanup_disk_blobs := False \<rparr>))
            else (Inr (), s)) of
        (Inl e, s1) \<Rightarrow> (Inl e, s1)
      | (Inr u, s1) \<Rightarrow>
          (let s2 = (case cleanup_small_blobs s1 of
                       None \<Rightarrow> s1
                     | Some f \<Rightarrow> s1\<lparr> cleanup_small_blobs := None \<rparr>)
           in (case cleanup_tempdir s2 of
                 None \<Rightarrow> (Inr (), s2)
               | Some d \<Rightarrow> (Inl NameError, s2))))"

subsection \<open>Head tracking\<close>

definition drop_heads :: "string list \<Rightarrow> (string \<rightharpoonup> string set) \<Rightarrow> (string \<rightharpoonup> string set)"
  where
  "drop_heads parents h = fold (\<lambda>parent hs. if parent \<in> dom hs then hs(parent := None) else hs)
     parents h"

definition track_heads_for_ref ::
  "string \<Rightarrow> string \<Rightarrow> string list option \<Rightarrow> CacheManager \<Rightarrow> CacheManager" where
  "track_heads_for_ref cmd_ref cid parents s =
     (let h1 = (case parents of None \<Rightarrow> heads s | Some ps \<Rightarrow> drop_heads ps (heads s));
          refs = (case h1 cid of None \<Rightarrow> {} | Some rs \<Rightarrow> rs)
      in s\<lparr> heads := h1(cid \<mapsto> insert cmd_ref refs),
             last_ids := (last_ids s)(cmd_ref \<mapsto> cid),
             last_ref := Some cmd_ref \<rparr>)"

definition resolve_parents :: "CommitCommand \<Rightarrow> CacheManager \<Rightarrow> string list" where
  "resolve_parents cmd s =
     (case cmd_from cmd of
        Some f \<Rightarrow> [f]
      | None \<Rightarrow> (case last_ids s (ref cmd) of Some last_id \<Rightarrow> [last_id] | None \<Rightarrow> []))
     @ merges cmd"

definition track_heads :: "CommitCommand \<Rightarrow> CacheManager \<Rightarrow> string list \<times> CacheManager" where
  "track_heads cmd s =
     (let parents = resolve_parents cmd s
      in (parents, track_heads_for_ref (ref cmd) (cmd_id cmd) (Some parents) s))"

definition root_commit :: "string \<Rightarrow> string \<Rightarrow> CommitCommand" where
  "root_commit r c = \<lparr> ref = r, cmd_id = c, author = None, committer = ''c'',
     cmd_from = None, merges = [], file_iter = [] \<rparr>"

definition merge_commit :: "string \<Rightarrow> string \<Rightarrow> string \<Rightarrow> string list \<Rightarrow> CommitCommand" where
  "merge_commit r c f ms = \<lparr> ref = r, cmd_id = c, author = None, committer = ''c'',
     cmd_from = Some f, merges = ms, file_iter = [] \<rparr>"

subsection \<open>An example run\<close>

text \<open>
  A manager without hints after \<open>store_blob('W', w)\<close> twice, with \<open>w\<close> of 100 MiB - 1
  bytes, and \<open>store_blob('Y', 'hello')\<close>: two blobs in the sticky map and 200 MiB + 3 on
  the byte counter, which counts \<open>w\<close> twice.
\<close>

definition spill_example :: CacheManager where
  "spill_example =
     snd (store_blob ''Y'' ''hello''
       (snd (store_blob ''W'' (replicate 104857599 CHR ''w'')
         (snd (store_blob ''W'' (replicate 104857599 CHR ''w'') (CacheManager_init None))))))"

text \<open>
  A manager without hints after \<open>store_blob('A', a)\<close> with \<open>a\<close> of 210 MiB.
\<close>

definition flush_order_example :: CacheManager where
  "flush_order_example =
     snd (store_blob ''A'' (replicate 220200960 CHR ''a'') (CacheManager_init None))"

section \<open>marks\_file.py\<close>

text \<open>
  The files \<open>marks_file.py\<close> opens: the contents of the paths that are files, and whether
  \<open>file(path)\<close> and \<open>file(path, 'w')\<close> succeed. Opening for reading a path that is
  missing, not a file or not permitted raises \<open>IOError\<close>, and so does opening for writing
  a path that cannot be created or overwritten.
\<close>

record FileSystem =
  contents :: "string \<rightharpoonup> string"
  readable :: "string \<Rightarrow> bool"
  writable :: "string \<Rightarrow> bool"

definition open_read :: "FileSystem \<Rightarrow> string \<Rightarrow> error + string" where
  "open_read fs filename =
     (case contents fs filename of
        None \<Rightarrow> Inl IOError
      | Some text \<Rightarrow> if readable fs filename then Inr text else Inl IOError)"

definition newline :: char where
  "newline = CHR 0x0A"

text \<open>
  Iterating over a file yields its lines, each with its newline; the last line may lack
  one, and an empty file has no line.
\<close>

fun file_lines :: "string \<Rightarrow> string \<Rightarrow> string list" where
  "file_lines cur [] = (if cur = [] then [] else [cur])"
| "file_lines cur (c # cs) =
     (if c = newline then (cur @ [c]) # file_lines [] cs else file_lines (cur @ [c]) cs)"

text \<open>\<open>line.rstrip('\n')\<close> removes every newline at the end.\<close>

definition rstrip_newline :: "string \<Rightarrow> string" where
  "rstrip_newline line = rev (dropWhile (\<lambda>c. c = newline) (rev line))"

text \<open>
  \<open>line.split(' ', 1)\<close> splits at the first space; the assignment to \<open>mark, revid\<close>
  raises \<open>ValueError\<close> when the line has no space.
\<close>

definition split_space :: "string \<Rightarrow> error + string \<times> string" where
  "split_space line =
     (case dropWhile (\<lambda>c. c \<noteq> CHR '' '') line of
        [] \<Rightarrow> Inl ValueError
      | sp # revid \<Rightarrow> Inr (takeWhile (\<lambda>c. c \<noteq> CHR '' '') line, revid))"

definition strip_colon :: "string \<Rightarrow> string" where
  "strip_colon mark = (case mark of c # rest \<Rightarrow> if c = CHR '':'' then rest else mark | [] \<Rightarrow> mark)"

fun import_lines :: "string list \<Rightarrow> (string \<times> string) list \<Rightarrow> error + (string \<times> string) list"
  where
  "import_lines [] revision_ids = Inr revision_ids"
| "import_lines (line # rest) revision_ids =
     (case split_space (rstrip_newline line) of
        Inl e \<Rightarrow> Inl e
      | Inr (mark, revid) \<Rightarrow>
          import_lines rest (AList.update (strip_colon mark) revid revision_ids))"

text \<open>
  \<open>import_marks\<close> returns \<open>None\<close> or the dictionary, and the warnings it logged.
\<close>

definition import_marks ::
  "FileSystem \<Rightarrow> string \<Rightarrow> (error + (string \<times> string) list option) \<times> string list" where
  "import_marks fs filename =
     (case open_read fs filename of
        Inl e \<Rightarrow>
          (Inr None, [''Could not import marks file '' @ filename @ '' - not importing marks''])
      | Inr text \<Rightarrow>
          (case import_lines (file_lines [] text) [] of
             Inl e \<Rightarrow> (Inl e, [])
           | Inr revision_ids \<Rightarrow> (Inr (Some revision_ids), [])))"

definition marks_line :: "string \<times> string \<Rightarrow> string" where
  "marks_line mr = CHR '':'' # fst mr @ CHR '' '' # snd mr @ [newline]"

text \<open>
  \<open>export_marks\<close> returns nothing; the model returns the file system it leaves and the
  warnings it logged.
\<close>

definition export_marks ::
  "FileSystem \<Rightarrow> string \<Rightarrow> (string \<times> string) list \<Rightarrow> (error + unit) \<times> FileSystem \<times> string list"
  where
  "export_marks fs filename revision_ids =
     (if \<not> writable fs filename then
        (Inr (), fs,
         [''Could not open export-marks file '' @ filename @ '' - not exporting marks''])
      else
        (Inr (),
         fs\<lparr> contents := (contents fs)(filename \<mapsto> concat (map marks_line revision_ids)) \<rparr>,
         []))"

text \<open>Two file systems without files: one where every path may be created, one where none may.\<close>

definition no_files :: FileSystem where
  "no_files = \<lparr> contents = Map.empty, readable = (\<lambda>p. True), writable = (\<lambda>p. True) \<rparr>"

definition read_only_files :: FileSystem where
  "read_only_files =
     \<lparr> contents = Map.empty, readable = (\<lambda>p. True), writable = (\<lambda>p. False) \<rparr>"

section \<open>processors/info\_processor.py\<close>

text \<open>
  The stream of commands. The classes are those of \<open>commands.py\<close>, which is not among the
  sources; a blob carries its mark and its id (\<open>:mark\<close>, or a line number when it has no
  mark), and the other commands what the handlers read.
\<close>

datatype Command =
    BlobCommand (blob_mark: "string option") (blob_id: string)
  | CommitCmd CommitCommand
  | ResetCommand (reset_ref: string) (reset_from: "string option")
  | ProgressCommand
  | CheckpointCommand
  | TagCommand
  | FeatureCommand (feature_name: string)

text \<open>
  \<open>cmd.name\<close> and \<open>fc.name\<close>: the name each command class passes to its base constructor.
\<close>

fun command_name :: "Command \<Rightarrow> string" where
  "command_name (BlobCommand m i) = ''blob''"
| "command_name (CommitCmd c) = ''commit''"
| "command_name (ResetCommand r f) = ''reset''"
| "command_name ProgressCommand = ''progress''"
| "command_name CheckpointCommand = ''checkpoint''"
| "command_name TagCommand = ''tag''"
| "command_name (FeatureCommand f) = ''feature''"

fun file_command_name :: "FileCommand \<Rightarrow> string" where
  "file_command_name (FileModifyCommand p k x d) = ''filemodify''"
| "file_command_name (FileDeleteCommand p) = ''filedelete''"
| "file_command_name (FileCopyCommand s d) = ''filecopy''"
| "file_command_name (FileRenameCommand old new) = ''filerename''"
| "file_command_name FileDeleteAllCommand = ''filedeleteall''"

definition SYMLINK_KIND :: string where
  "SYMLINK_KIND = ''symlink''"

text \<open>
  The statistics of \<open>InfoProcessor\<close>. The dictionary \<open>self.blobs\<close> of four sets is four
  fields; \<open>info_blob_ref_counts\<close> and \<open>info_merges\<close> are \<open>self.blob_ref_counts\<close> and
  \<open>self.merges\<close>.
\<close>

record InfoProcessor =
  cmd_counts :: "string \<rightharpoonup> int"
  file_cmd_counts :: "string \<rightharpoonup> int"
  parent_counts :: "nat \<rightharpoonup> int"
  max_parent_count :: nat
  committers :: "string set"
  separate_authors_found :: bool
  symlinks_found :: bool
  executables_found :: bool
  sha_blob_references :: bool
  lightweight_tags :: int
  blobs_new :: "string set"
  blobs_used :: "string set"
  blobs_unknown :: "string set"
  blobs_unmarked :: "string set"
  info_blob_ref_counts :: "string \<rightharpoonup> int"
  cache_mgr :: CacheManager
  info_merges :: "string \<rightharpoonup> int"
  rename_old_paths :: "string \<rightharpoonup> string set"
  copy_source_paths :: "string \<rightharpoonup> string set"
  warnings :: "string list"

text \<open>
  \<open>pre_process\<close>, given \<open>commands.COMMAND_NAMES\<close> and \<open>commands.FILE_COMMAND_NAMES\<close>.
\<close>

definition pre_process :: "string list \<Rightarrow> string list \<Rightarrow> InfoProcessor" where
  "pre_process COMMAND_NAMES FILE_COMMAND_NAMES =
     \<lparr> cmd_counts = fold (\<lambda>cmd m. m(cmd \<mapsto> 0)) COMMAND_NAMES Map.empty,
       file_cmd_counts = fold (\<lambda>fc m. m(fc \<mapsto> 0)) FILE_COMMAND_NAMES Map.empty,
       parent_counts = Map.empty, max_parent_count = 0, committers = {},
       separate_authors_found = False, symlinks_found = False, executables_found = False,
       sha_blob_references = False, lightweight_tags = 0,
       blobs_new = {}, blobs_used = {}, blobs_unknown = {}, blobs_unmarked = {},
       info_blob_ref_counts = Map.empty, cache_mgr = CacheManager_init None,
       info_merges = Map.empty, rename_old_paths = Map.empty, copy_source_paths = Map.empty,
       warnings = [] \<rparr>"

text \<open>\<open>counts[name] += 1\<close> raises \<open>KeyError\<close> for a name that has no entry.\<close>

definition increment :: "'k \<Rightarrow> ('k \<rightharpoonup> int) \<Rightarrow> error + ('k \<rightharpoonup> int)" where
  "increment k counts = (case counts k of None \<Rightarrow> Inl KeyError | Some n \<Rightarrow> Inr (counts(k \<mapsto> n + 1)))"

definition count_command :: "Command \<Rightarrow> InfoProcessor \<Rightarrow> error + InfoProcessor" where
  "count_command cmd p =
     (case increment (command_name cmd) (cmd_counts p) of
        Inl e \<Rightarrow> Inl e
      | Inr counts \<Rightarrow> Inr (p\<lparr> cmd_counts := counts \<rparr>))"

definition blob_handler :: "string option \<Rightarrow> string \<Rightarrow> InfoProcessor \<Rightarrow> error + InfoProcessor"
  where
  "blob_handler mark i p =
     (case count_command (BlobCommand mark i) p of
        Inl e \<Rightarrow> Inl e
      | Inr p1 \<Rightarrow>
          (if mark = None
           then Inr (p1\<lparr> blobs_unmarked := insert i (blobs_unmarked p1) \<rparr>)
           else Inr (p1\<lparr> blobs_new := insert i (blobs_new p1),
                         blobs_used := blobs_used p1 - {i} \<rparr>)))"

definition track_blob :: "string \<Rightarrow> InfoProcessor \<Rightarrow> InfoProcessor" where
  "track_blob mark p =
     (case info_blob_ref_counts p mark of
        Some n \<Rightarrow> p\<lparr> info_blob_ref_counts := (info_blob_ref_counts p)(mark \<mapsto> n + 1) \<rparr>
      | None \<Rightarrow>
          (if mark \<in> blobs_used p then
             p\<lparr> info_blob_ref_counts := (info_blob_ref_counts p)(mark \<mapsto> 2),
                blobs_used := blobs_used p - {mark} \<rparr>
           else if mark \<in> blobs_new p then
             p\<lparr> blobs_used := insert mark (blobs_used p),
                blobs_new := blobs_new p - {mark} \<rparr>
           else p\<lparr> blobs_unknown := insert mark (blobs_unknown p) \<rparr>))"

text \<open>
  The body of the loop over \<open>cmd.file_iter()\<close> in \<open>commit_handler\<close>; \<open>fc.dataref[0]\<close>
  raises \<open>IndexError\<close> on an empty string.
\<close>

definition add_path :: "string \<Rightarrow> string \<Rightarrow> (string \<rightharpoonup> string set) \<Rightarrow> (string \<rightharpoonup> string set)" where
  "add_path k v m = m(k \<mapsto> insert v (case m k of None \<Rightarrow> {} | Some vs \<Rightarrow> vs))"

definition file_command_handler ::
  "string \<Rightarrow> FileCommand \<Rightarrow> InfoProcessor \<Rightarrow> error + InfoProcessor" where
  "file_command_handler cid fc p =
     (case increment (file_command_name fc) (file_cmd_counts p) of
        Inl e \<Rightarrow> Inl e
      | Inr counts \<Rightarrow>
          (let p1 = p\<lparr> file_cmd_counts := counts \<rparr>
           in case fc of
                FileModifyCommand pth knd exe dref \<Rightarrow>
                  (let p2 = (if exe then p1\<lparr> executables_found := True \<rparr> else p1);
                       p3 = (if knd = SYMLINK_KIND then p2\<lparr> symlinks_found := True \<rparr> else p2)
                   in case dref of
                        None \<Rightarrow> Inr p3
                      | Some [] \<Rightarrow> Inl IndexError
                      | Some (c # rest) \<Rightarrow>
                          (if c = CHR '':'' then Inr (track_blob (c # rest) p3)
                           else Inr (p3\<lparr> sha_blob_references := True \<rparr>)))
              | FileRenameCommand old new \<Rightarrow>
                  Inr (p1\<lparr> rename_old_paths := add_path cid old (rename_old_paths p1) \<rparr>)
              | FileCopyCommand src dest \<Rightarrow>
                  Inr (p1\<lparr> copy_source_paths := add_path cid src (copy_source_paths p1) \<rparr>)
              | FileDeleteCommand pth \<Rightarrow> Inr p1
              | FileDeleteAllCommand \<Rightarrow> Inr p1))"

fun file_commands_loop ::
  "string \<Rightarrow> FileCommand list \<Rightarrow> InfoProcessor \<Rightarrow> error + InfoProcessor" where
  "file_commands_loop cid [] p = Inr p"
| "file_commands_loop cid (fc # rest) p =
     (case file_command_handler cid fc p of
        Inl e \<Rightarrow> Inl e
      | Inr p1 \<Rightarrow> file_commands_loop cid rest p1)"

definition count_merge :: "string \<Rightarrow> (string \<rightharpoonup> int) \<Rightarrow> (string \<rightharpoonup> int)" where
  "count_merge merge m = (case m merge of Some n \<Rightarrow> m(merge \<mapsto> n + 1) | None \<Rightarrow> m(merge \<mapsto> 1))"

text \<open>The parent counts of \<open>commit_handler\<close>, for a commit with \<open>parent_count\<close> parents.\<close>

definition count_parents :: "nat \<Rightarrow> InfoProcessor \<Rightarrow> InfoProcessor" where
  "count_parents parent_count p =
     (case parent_counts p parent_count of
        Some n \<Rightarrow> p\<lparr> parent_counts := (parent_counts p)(parent_count \<mapsto> n + 1) \<rparr>
      | None \<Rightarrow>
          p\<lparr> parent_counts := (parent_counts p)(parent_count \<mapsto> 1),
             max_parent_count :=
               (if parent_count > max_parent_count p then parent_count
                else max_parent_count p) \<rparr>)"

definition commit_handler :: "CommitCommand \<Rightarrow> InfoProcessor \<Rightarrow> error + InfoProcessor" where
  "commit_handler cmd p =
     (case count_command (CommitCmd cmd) p of
        Inl e \<Rightarrow> Inl e
      | Inr p1 \<Rightarrow>
          (let p2 = p1\<lparr> committers := insert (committer cmd) (committers p1) \<rparr>;
               p3 = (if author cmd \<noteq> None then p2\<lparr> separate_authors_found := True \<rparr> else p2)
           in case file_commands_loop (cmd_id cmd) (file_iter cmd) p3 of
                Inl e \<Rightarrow> Inl e
              | Inr p4 \<Rightarrow>
                  (case track_heads cmd (cache_mgr p4) of
                     (parents, mgr) \<Rightarrow>
                       (let p5 = count_parents (length parents) (p4\<lparr> cache_mgr := mgr \<rparr>)
                        in Inr (p5\<lparr> info_merges :=
                                     fold count_merge (merges cmd) (info_merges p5) \<rparr>)))))"

definition reset_handler :: "string \<Rightarrow> string option \<Rightarrow> InfoProcessor \<Rightarrow> error + InfoProcessor"
  where
  "reset_handler r from p =
     (case count_command (ResetCommand r from) p of
        Inl e \<Rightarrow> Inl e
      | Inr p1 \<Rightarrow>
          (if take 10 r = ''refs/tags/''
           then Inr (p1\<lparr> lightweight_tags := lightweight_tags p1 + 1 \<rparr>)
           else (case from of
                   None \<Rightarrow> Inr p1
                 | Some f \<Rightarrow>
                     Inr (p1\<lparr> cache_mgr := track_heads_for_ref r f None (cache_mgr p1) \<rparr>))))"

definition feature_handler :: "string \<Rightarrow> InfoProcessor \<Rightarrow> error + InfoProcessor" where
  "feature_handler feature p =
     (case count_command (FeatureCommand feature) p of
        Inl e \<Rightarrow> Inl e
      | Inr p1 \<Rightarrow>
          Inr (p1\<lparr> warnings := warnings p1 @
                  [''assuming feature '' @ feature @ '' is supported''] \<rparr>))"

text \<open>
  Modelled from the spec: the dispatch of the processor framework (\<open>processor.py\<close> is not
  among the sources), which calls for each command of the stream, in order, the handler
  of its type; an exception ends the run.
\<close>

fun handle :: "Command \<Rightarrow> InfoProcessor \<Rightarrow> error + InfoProcessor" where
  "handle (BlobCommand m i) p = blob_handler m i p"
| "handle (CommitCmd c) p = commit_handler c p"
| "handle (ResetCommand r f) p = reset_handler r f p"
| "handle (FeatureCommand f) p = feature_handler f p"
| "handle cmd p = count_command cmd p"

fun process :: "Command list \<Rightarrow> InfoProcessor \<Rightarrow> error + InfoProcessor" where
  "process [] p = Inr p"
| "process (cmd # rest) p =
     (case handle cmd p of Inl e \<Rightarrow> Inl e | Inr p1 \<Rightarrow> process rest p1)"


text \<open>The names of \<open>commands.py\<close>, for the examples.\<close>

definition command_names :: "string list" where
  "command_names = [''blob'', ''checkpoint'', ''commit'', ''feature'', ''progress'', ''reset'',
     ''tag'']"

definition file_command_names :: "string list" where
  "file_command_names = [''filemodify'', ''filedelete'', ''filecopy'', ''filerename'',
     ''filedeleteall'']"

definition modify :: "string \<Rightarrow> FileCommand" where
  "modify m = FileModifyCommand ''f'' ''file'' False (Some m)"

definition commit_of :: "string \<Rightarrow> FileCommand list \<Rightarrow> Command" where
  "commit_of c fcs = CommitCmd \<lparr> ref = ''refs/heads/master'', cmd_id = c, author = None,
     committer = ''c'', cmd_from = None, merges = [], file_iter = fcs \<rparr>"

text \<open>
  A stream that uses the mark \<open>:1\<close> for two blobs, one after the other, each referenced
  once; a stream that declares \<open>:1\<close> and \<open>:2\<close> and references \<open>:1\<close> twice, \<open>:2\<close> once
  and the undeclared \<open>:3\<close> once.
\<close>

definition reused_mark_stream :: "Command list" where
  "reused_mark_stream =
     [BlobCommand (Some ''1'') '':1'', commit_of '':2'' [modify '':1''],
      BlobCommand (Some ''1'') '':1'', commit_of '':3'' [modify '':1'']]"

definition counted_stream :: "Command list" where
  "counted_stream =
     [BlobCommand (Some ''1'') '':1'', BlobCommand (Some ''2'') '':2'',
      commit_of '':3'' [modify '':1'', modify '':2'', modify '':3''],
      commit_of '':4'' [modify '':1'']]"

section \<open>Predicates used in the statements\<close>

subsection \<open>Cache states\<close>

text \<open>
  The manager can spill: either nothing was ever flushed (no directory, no small-blob
  handle), or the directory exists and the small-blob handle is open. A new manager is
  such, and \<open>store_blob\<close>, \<open>fetch_blob\<close> and \<open>_flush_blobs_to_disk\<close> keep it so
  (\<open>spill_ready_kept\<close> below); a manager whose \<open>_cleanup.finalize()\<close> has run after a
  flush is not.
\<close>

definition spill_ready :: "CacheManager \<Rightarrow> bool" where
  "spill_ready s =
     (if tempdir s = None then cleanup_small_blobs s = None
      else cleanup_small_blobs s \<noteq> None \<and> fs_tempdir s)"

definition ready :: "CacheManager \<Rightarrow> bool" where
  "ready s = (cleanup_small_blobs s \<noteq> None \<and> fs_tempdir s)"

text \<open>
  Payload \<open>b\<close> of id \<open>i\<close> is on disk: below the threshold as \<open>(offset, length, None)\<close> with
  the bytes at that place of the small-blob file, otherwise as \<open>(0, length, name)\<close> with a
  file of its own holding the bytes.
\<close>

definition spilled :: "CacheManager \<Rightarrow> string \<Rightarrow> string \<Rightarrow> bool" where
  "spilled s i b =
     (case map_of (disk_blobs s) i of
        None \<Rightarrow> False
      | Some (offset, n_bytes, fn) \<Rightarrow>
          n_bytes = length b \<and>
          (case fn of
             None \<Rightarrow> length b < small_blob_threshold \<and>
                (case cleanup_small_blobs s of
                   None \<Rightarrow> False
                 | Some f \<Rightarrow> offset + n_bytes \<le> length f \<and> take n_bytes (drop offset f) = b)
           | Some name \<Rightarrow> small_blob_threshold \<le> length b \<and> offset = 0 \<and>
                map_of (fs_files s) name = Some b))"

text \<open>Payload \<open>b\<close> of id \<open>i\<close> is in the sticky map, or has left it for the disk.\<close>

definition stored :: "CacheManager \<Rightarrow> string \<Rightarrow> string \<Rightarrow> bool" where
  "stored s i b = (map_of (sticky_blobs s) i = Some b
      \<or> (map_of (sticky_blobs s) i = None \<and> spilled s i b))"

text \<open>
  Id \<open>i\<close> is held with payload \<open>b\<close>: by the sticky map or the disk tier and by nothing that
  \<open>fetch_blob\<close> looks at earlier.
\<close>

definition held :: "CacheManager \<Rightarrow> string \<Rightarrow> string \<Rightarrow> bool" where
  "held s i b = (map_of (blobs s) i = None \<and> stored s i b
      \<and> (map_of (sticky_blobs s) i = None \<or> map_of (disk_blobs s) i = None))"

definition absent :: "CacheManager \<Rightarrow> string \<Rightarrow> bool" where
  "absent s i = (map_of (blobs s) i = None \<and> map_of (sticky_blobs s) i = None
     \<and> map_of (disk_blobs s) i = None)"

text \<open>The bytes in the sticky map, which \<open>_sticky_memory_bytes\<close> is meant to count.\<close>

definition sticky_total :: "(string \<times> string) list \<Rightarrow> int" where
  "sticky_total al = (\<Sum>kb\<leftarrow>al. int (length (snd kb)))"

text \<open>No id is in two of the three tiers.\<close>

definition disjoint_at :: "CacheManager \<Rightarrow> string \<Rightarrow> bool" where
  "disjoint_at s i =
     ((map_of (blobs s) i = None \<or> map_of (sticky_blobs s) i = None)
      \<and> (map_of (blobs s) i = None \<or> map_of (disk_blobs s) i = None)
      \<and> (map_of (sticky_blobs s) i = None \<or> map_of (disk_blobs s) i = None))"

definition tiers_disjoint :: "CacheManager \<Rightarrow> bool" where
  "tiers_disjoint s =
     (fst ` set (blobs s) \<inter> fst ` set (sticky_blobs s) = {}
      \<and> fst ` set (blobs s) \<inter> fst ` set (disk_blobs s) = {}
      \<and> fst ` set (sticky_blobs s) \<inter> fst ` set (disk_blobs s) = {})"

text \<open>
  The states a new manager reaches by \<open>store_blob\<close>, \<open>fetch_blob\<close> and
  \<open>_flush_blobs_to_disk\<close>, in any order and whatever their outcome, when \<open>store_blob\<close> is
  only called for an id that no tier holds at that moment.
\<close>

inductive reachable :: "CacheManager \<Rightarrow> bool" where
  init: "reachable (CacheManager_init info)"
| store: "reachable s \<Longrightarrow> absent s i \<Longrightarrow> reachable (snd (store_blob i d s))"
| fetch: "reachable s \<Longrightarrow> reachable (snd (fetch_blob i s))"
| flush: "reachable s \<Longrightarrow> reachable (snd (flush_blobs_to_disk s))"

text \<open>
  The mappings the marks file can carry: no space and no newline in a mark, no newline in
  an identifier.
\<close>

definition marks_ok :: "(string \<times> string) list \<Rightarrow> bool" where
  "marks_ok m = (\<forall>mr\<in>set m. CHR '' '' \<notin> set (fst mr) \<and> newline \<notin> set (fst mr)
     \<and> newline \<notin> set (snd mr))"

definition line_body :: "string \<times> string \<Rightarrow> string" where
  "line_body mr = CHR '':'' # fst mr @ CHR '' '' # snd mr"

subsection \<open>Streams and the tracking of one mark\<close>

text \<open>
  What a command does to a mark \<open>m\<close>: a Blob command with a mark and the id \<open>m\<close> declares
  it, a commit references it once for each Modify whose data reference is \<open>m\<close>. A stream
  is in order when its command names and file command names are among those given to
  \<open>pre_process\<close> and no Modify has an empty data reference. The tracking of \<open>m\<close> is what
  the processor knows of it: whether it is in \<open>new\<close>, \<open>used\<close>, \<open>unknown\<close>, and its
  reference count.
\<close>

fun is_reference :: "string \<Rightarrow> FileCommand \<Rightarrow> bool" where
  "is_reference m (FileModifyCommand p k x d) = (d = Some m)"
| "is_reference m fc = False"

fun references :: "string \<Rightarrow> Command \<Rightarrow> nat" where
  "references m (CommitCmd c) = length (filter (is_reference m) (file_iter c))"
| "references m cmd = 0"

fun declares :: "string \<Rightarrow> Command \<Rightarrow> bool" where
  "declares m (BlobCommand mark i) = (mark \<noteq> None \<and> i = m)"
| "declares m cmd = False"

definition total_references :: "string \<Rightarrow> Command list \<Rightarrow> nat" where
  "total_references m cmds = sum_list (map (references m) cmds)"

fun file_command_ok :: "string list \<Rightarrow> FileCommand \<Rightarrow> bool" where
  "file_command_ok fcn (FileModifyCommand p k x d) = (''filemodify'' \<in> set fcn \<and> d \<noteq> Some [])"
| "file_command_ok fcn fc = (file_command_name fc \<in> set fcn)"

fun command_ok :: "string list \<Rightarrow> string list \<Rightarrow> Command \<Rightarrow> bool" where
  "command_ok cn fcn (CommitCmd c) =
     (''commit'' \<in> set cn \<and> list_all (file_command_ok fcn) (file_iter c))"
| "command_ok cn fcn cmd = (command_name cmd \<in> set cn)"

definition stream_ok :: "string list \<Rightarrow> string list \<Rightarrow> Command list \<Rightarrow> bool" where
  "stream_ok cn fcn cmds = list_all (command_ok cn fcn) cmds"

type_synonym tracking = "bool \<times> bool \<times> bool \<times> int option"

definition tracking_of :: "InfoProcessor \<Rightarrow> string \<Rightarrow> tracking" where
  "tracking_of p m = (m \<in> blobs_new p, m \<in> blobs_used p, m \<in> blobs_unknown p,
     info_blob_ref_counts p m)"

fun track_view :: "tracking \<Rightarrow> tracking" where
  "track_view (n, u, k, Some c) = (n, u, k, Some (c + 1))"
| "track_view (n, True, k, None) = (n, False, k, Some 2)"
| "track_view (True, False, k, None) = (False, True, k, None)"
| "track_view (False, False, k, None) = (False, False, True, None)"

fun declare_view :: "tracking \<Rightarrow> tracking" where
  "declare_view (n, u, k, c) = (True, False, k, c)"

definition view_step :: "string \<Rightarrow> Command \<Rightarrow> tracking \<Rightarrow> tracking" where
  "view_step m cmd v = (if declares m cmd then declare_view v else (track_view ^^ references m cmd) v)"

definition names_ok :: "string list \<Rightarrow> string list \<Rightarrow> InfoProcessor \<Rightarrow> bool" where
  "names_ok cn fcn p = (set cn \<subseteq> dom (cmd_counts p) \<and> set fcn \<subseteq> dom (file_cmd_counts p))"

section \<open>Head tracking: proofs\<close>

lemma drop_heads_apply:
  "drop_heads ps h c = (if c \<in> set ps then None else h c)"
  unfolding drop_heads_def
  by (induction ps arbitrary: h) (auto simp: dom_def)

lemma heads_track_heads_for_ref:
  "heads (track_heads_for_ref r c (Some ps) s) =
     (\<lambda>x. if x = c then Some (insert r (if c \<in> set ps then {} else
                                         (case heads s c of None \<Rightarrow> {} | Some rs \<Rightarrow> rs)))
          else if x \<in> set ps then None else heads s x)"
  by (rule ext) (simp add: track_heads_for_ref_def Let_def drop_heads_apply)

lemma last_ids_track_heads_for_ref:
  "last_ids (track_heads_for_ref r c ps s) = (last_ids s)(r \<mapsto> c)"
  by (simp add: track_heads_for_ref_def Let_def)

text \<open>
  C3. \<open>track_heads\<close> returns the explicit \<open>from_\<close> if present, else the last id seen for
  the ref, else nothing, followed by all merges. Every returned parent other than the
  commit itself is no longer a head afterwards, the commit is a head of its ref, every
  other entry of the head set is untouched, and the last id of the ref is the commit.
  After two roots \<open>C1\<close> on \<open>R1\<close> and \<open>C2\<close> on \<open>R2\<close> and then \<open>C3\<close> with \<open>from_ = C1\<close> and
  \<open>merges = [C2]\<close>, the head set is exactly \<open>{C3: {R1}}\<close>.
\<close>

theorem track_heads_parents_and_heads:
  "fst (track_heads cmd s) =
     (case cmd_from cmd of
        Some f \<Rightarrow> [f]
      | None \<Rightarrow> (case last_ids s (ref cmd) of Some l \<Rightarrow> [l] | None \<Rightarrow> [])) @ merges cmd
   \<and> (\<forall>p \<in> set (fst (track_heads cmd s)).
        p \<noteq> cmd_id cmd \<longrightarrow> heads (snd (track_heads cmd s)) p = None)
   \<and> (\<exists>rs. heads (snd (track_heads cmd s)) (cmd_id cmd) = Some rs \<and> ref cmd \<in> rs)
   \<and> (\<forall>x. x \<notin> set (fst (track_heads cmd s)) \<and> x \<noteq> cmd_id cmd \<longrightarrow>
        heads (snd (track_heads cmd s)) x = heads s x)
   \<and> last_ids (snd (track_heads cmd s)) (ref cmd) = Some (cmd_id cmd)
   \<and> heads (snd (track_heads (merge_commit ''R1'' ''C3'' ''C1'' [''C2''])
        (snd (track_heads (root_commit ''R2'' ''C2'')
          (snd (track_heads (root_commit ''R1'' ''C1'') (CacheManager_init None)))))))
       = [''C3'' \<mapsto> {''R1''}]"
proof -
  have particular:
    "heads (snd (track_heads (merge_commit ''R1'' ''C3'' ''C1'' [''C2''])
        (snd (track_heads (root_commit ''R2'' ''C2'')
          (snd (track_heads (root_commit ''R1'' ''C1'') (CacheManager_init None)))))))
       = [''C3'' \<mapsto> {''R1''}]"
    by (rule ext)
       (simp add: track_heads_def Let_def heads_track_heads_for_ref resolve_parents_def
          last_ids_track_heads_for_ref root_commit_def merge_commit_def CacheManager_init_def)
  show ?thesis
    using particular
    by (simp add: track_heads_def Let_def heads_track_heads_for_ref resolve_parents_def
        last_ids_track_heads_for_ref)
qed

theorem track_heads_parents_and_heads_witness:
  "fst (track_heads (merge_commit ''R1'' ''C3'' ''C1'' [''C2''])
      (track_heads_for_ref ''R2'' ''C2'' None
        (track_heads_for_ref ''R1'' ''C1'' None (CacheManager_init None))))
     = [''C1'', ''C2'']
   \<and> heads (snd (track_heads (merge_commit ''R1'' ''C3'' ''C1'' [''C2''])
      (track_heads_for_ref ''R2'' ''C2'' None
        (track_heads_for_ref ''R1'' ''C1'' None (CacheManager_init None))))) ''C1'' = None
   \<and> heads (snd (track_heads (merge_commit ''R1'' ''C3'' ''C1'' [''C2''])
      (track_heads_for_ref ''R2'' ''C2'' None
        (track_heads_for_ref ''R1'' ''C1'' None (CacheManager_init None))))) ''C2'' = None"
  using track_heads_parents_and_heads
    [of "merge_commit ''R1'' ''C3'' ''C1'' [''C2'']"
        "track_heads_for_ref ''R2'' ''C2'' None
           (track_heads_for_ref ''R1'' ''C1'' None (CacheManager_init None))"]
  by (simp add: merge_commit_def resolve_parents_def)

section \<open>The flush loop\<close>

lemma flush_loop_Nil:
  "flush_loop [] s =
     (if sticky_memory_bytes s > sticky_flushed_size then (Inl IndexError, s) else (Inr (), s))"
  by (simp add: flush_loop.simps)

lemma flush_loop_snoc:
  "flush_loop (pending @ [k]) s =
     (if sticky_memory_bytes s > sticky_flushed_size then
        (case flush_one k s of
           (Inl e, s1) \<Rightarrow> (Inl e, s1)
         | (Inr u, s1) \<Rightarrow> flush_loop pending s1)
      else (Inr (), s))"
  by (subst flush_loop.simps) (simp split: prod.split sum.split)

text \<open>
  A property of states that every round keeps is kept by the loop, whatever its outcome.
\<close>

lemma flush_loop_preserves:
  assumes step: "\<And>k s. P s \<Longrightarrow> P (snd (flush_one k s))"
  shows "P s \<Longrightarrow> P (snd (flush_loop pending s))"
proof (induction pending arbitrary: s rule: rev_induct)
  case Nil
  then show ?case by (simp add: flush_loop_Nil)
next
  case (snoc k pending)
  have p1: "P (snd (flush_one k s))" using snoc.prems by (rule step)
  show ?case
  proof (cases "flush_one k s")
    case (Pair res s1)
    with p1 snoc.IH[of s1] snoc.prems show ?thesis
      by (cases res) (auto simp: flush_loop_snoc)
  qed
qed

lemma flush_blobs_to_disk_preserves:
  assumes step: "\<And>k s. P s \<Longrightarrow> P (snd (flush_one k s))"
    and start: "P (open_tempdir s)"
  shows "P (snd (flush_blobs_to_disk s))"
  unfolding flush_blobs_to_disk_def Let_def
  using step start by (rule flush_loop_preserves)

lemma mkstemp_fresh: "map_of files (mkstemp files) = None"
proof -
  have "\<And>n. n \<in> fst ` set files \<Longrightarrow> n < mkstemp files"
    unfolding mkstemp_def by (simp add: less_Suc_eq_le)
  then have "mkstemp files \<notin> fst ` set files" by blast
  then show ?thesis by (simp add: map_of_eq_None_iff)
qed

lemma flush_one_ready: "ready s \<Longrightarrow> ready (snd (flush_one k s))"
  by (auto simp: ready_def flush_one_def Let_def split: option.splits)

lemma flush_one_self:
  assumes "ready s" "map_of (sticky_blobs s) k = Some b"
  shows "fst (flush_one k s) = Inr () \<and> map_of (sticky_blobs (snd (flush_one k s))) k = None
         \<and> spilled (snd (flush_one k s)) k b"
  using assms
  by (auto simp: ready_def flush_one_def Let_def spilled_def update_conv' delete_conv'
      mkstemp_fresh split: option.splits)

lemma spilled_name_neq:
  "spilled s i b \<Longrightarrow> map_of (disk_blobs s) i = Some (off, n, Some name) \<Longrightarrow>
     name \<noteq> mkstemp (fs_files s)"
  using mkstemp_fresh[of "fs_files s"] by (auto simp: spilled_def)

lemma flush_one_other_spilled:
  assumes "spilled s i b" "k \<noteq> i"
  shows "spilled (snd (flush_one k s)) i b"
proof (cases "map_of (disk_blobs s) i")
  case None
  with assms show ?thesis by (simp add: spilled_def)
next
  case (Some info)
  obtain off n fn where info: "info = (off, n, fn)" by (cases info)
  show ?thesis
  proof (cases fn)
    case None
    with assms Some info show ?thesis
      by (auto simp: flush_one_def Let_def spilled_def update_conv' delete_conv'
          split: option.splits)
  next
    case (Some name)
    with assms \<open>map_of (disk_blobs s) i = Some info\<close> info
    have "name \<noteq> mkstemp (fs_files s)"
      using spilled_name_neq by blast
    with assms Some \<open>map_of (disk_blobs s) i = Some info\<close> info show ?thesis
      by (auto simp: flush_one_def Let_def spilled_def update_conv' delete_conv'
          split: option.splits)
  qed
qed

lemma flush_one_other_sticky:
  "k \<noteq> i \<Longrightarrow> map_of (sticky_blobs (snd (flush_one k s))) i = map_of (sticky_blobs s) i"
  by (auto simp: flush_one_def Let_def delete_conv' split: option.splits)

lemma flush_one_other_disk:
  "k \<noteq> i \<Longrightarrow> map_of (disk_blobs (snd (flush_one k s))) i = map_of (disk_blobs s) i"
  by (auto simp: flush_one_def Let_def update_conv' split: option.splits)

lemma flush_one_self_sticky: "map_of (sticky_blobs (snd (flush_one k s))) k = None"
  by (auto simp: flush_one_def Let_def delete_conv' split: option.splits)

lemma flush_one_blobs: "blobs (snd (flush_one k s)) = blobs s"
  by (auto simp: flush_one_def Let_def split: option.splits)

lemma flush_one_ref_counts: "blob_ref_counts (snd (flush_one k s)) = blob_ref_counts s"
  by (auto simp: flush_one_def Let_def split: option.splits)

lemma flush_one_missing:
  "map_of (sticky_blobs s) k = None \<Longrightarrow> flush_one k s = (Inl KeyError, s)"
  by (simp add: flush_one_def)

lemma flush_one_stored:
  assumes "ready s \<and> stored s i b"
  shows "ready (snd (flush_one k s)) \<and> stored (snd (flush_one k s)) i b"
proof (cases "k = i")
  case False
  with assms show ?thesis
    by (auto simp: stored_def flush_one_other_sticky flush_one_other_spilled flush_one_ready)
next
  case True
  show ?thesis
  proof (cases "map_of (sticky_blobs s) i")
    case None
    with assms True show ?thesis by (simp add: flush_one_missing)
  next
    case (Some c)
    with assms have "c = b" by (auto simp: stored_def)
    with Some assms True show ?thesis
      using flush_one_self[of s i b] by (simp add: stored_def flush_one_ready)
  qed
qed

lemma flush_one_unshadowed:
  assumes "map_of (sticky_blobs s) i = None \<or> map_of (disk_blobs s) i = None"
  shows "map_of (sticky_blobs (snd (flush_one k s))) i = None
       \<or> map_of (disk_blobs (snd (flush_one k s))) i = None"
proof (cases "k = i")
  case True
  then show ?thesis by (simp add: flush_one_self_sticky)
next
  case False
  with assms show ?thesis by (simp add: flush_one_other_sticky flush_one_other_disk)
qed

lemma open_tempdir_ready: "spill_ready s \<Longrightarrow> ready (open_tempdir s)"
  by (auto simp: spill_ready_def ready_def open_tempdir_def)

lemma open_tempdir_spilled: "spill_ready s \<Longrightarrow> spilled s i b \<Longrightarrow> spilled (open_tempdir s) i b"
  by (auto simp: spill_ready_def spilled_def open_tempdir_def split: option.splits)

lemma open_tempdir_fields:
  "blobs (open_tempdir s) = blobs s" "sticky_blobs (open_tempdir s) = sticky_blobs s"
  "disk_blobs (open_tempdir s) = disk_blobs s"
  "blob_ref_counts (open_tempdir s) = blob_ref_counts s"
  "sticky_memory_bytes (open_tempdir s) = sticky_memory_bytes s"
  "fs_files (open_tempdir s) = fs_files s"
  by (simp_all add: open_tempdir_def)

lemma flush_blobs_to_disk_stored:
  assumes "spill_ready s" "stored s i b"
  shows "stored (snd (flush_blobs_to_disk s)) i b"
proof -
  have "ready (snd (flush_blobs_to_disk s)) \<and> stored (snd (flush_blobs_to_disk s)) i b"
  proof (rule flush_blobs_to_disk_preserves[where P = "\<lambda>s. ready s \<and> stored s i b"])
    show "\<And>k s. ready s \<and> stored s i b \<Longrightarrow>
       ready (snd (flush_one k s)) \<and> stored (snd (flush_one k s)) i b"
      by (rule flush_one_stored)
  next
    show "ready (open_tempdir s) \<and> stored (open_tempdir s) i b"
      using assms
      by (auto simp: stored_def open_tempdir_ready open_tempdir_spilled open_tempdir_fields)
  qed
  then show ?thesis by simp
qed

lemma flush_blobs_to_disk_unshadowed:
  assumes "map_of (sticky_blobs s) i = None \<or> map_of (disk_blobs s) i = None"
  shows "map_of (sticky_blobs (snd (flush_blobs_to_disk s))) i = None
       \<or> map_of (disk_blobs (snd (flush_blobs_to_disk s))) i = None"
proof (rule flush_blobs_to_disk_preserves[where
      P = "\<lambda>s. map_of (sticky_blobs s) i = None \<or> map_of (disk_blobs s) i = None"])
  show "\<And>k s. map_of (sticky_blobs s) i = None \<or> map_of (disk_blobs s) i = None \<Longrightarrow>
     map_of (sticky_blobs (snd (flush_one k s))) i = None
       \<or> map_of (disk_blobs (snd (flush_one k s))) i = None"
    by (rule flush_one_unshadowed)
next
  show "map_of (sticky_blobs (open_tempdir s)) i = None
      \<or> map_of (disk_blobs (open_tempdir s)) i = None"
    using assms by (simp add: open_tempdir_fields)
qed

lemma flush_blobs_to_disk_blobs: "blobs (snd (flush_blobs_to_disk s)) = blobs s"
  by (rule flush_blobs_to_disk_preserves[where P = "\<lambda>t. blobs t = blobs s"])
     (simp_all add: flush_one_blobs open_tempdir_fields)

lemma flush_blobs_to_disk_ref_counts:
  "blob_ref_counts (snd (flush_blobs_to_disk s)) = blob_ref_counts s"
  by (rule flush_blobs_to_disk_preserves[where P = "\<lambda>t. blob_ref_counts t = blob_ref_counts s"])
     (simp_all add: flush_one_ref_counts open_tempdir_fields)

section \<open>Storing and fetching\<close>

lemma store_blob_ref_counts: "blob_ref_counts (snd (store_blob i d s)) = blob_ref_counts s"
  by (simp add: store_blob_def Let_def flush_blobs_to_disk_ref_counts)

lemma store_blob_stored:
  assumes "spill_ready s"
    and "blob_ref_counts s = [] \<or> map_of (blob_ref_counts s) j \<noteq> None \<or> d' = []"
    and "map_of (AList.update j d' (sticky_blobs s)) i = Some d"
  shows "stored (snd (store_blob j d' s)) i d \<and> blobs (snd (store_blob j d' s)) = blobs s"
proof (cases "blob_ref_counts s = [] \<or> map_of (blob_ref_counts s) j \<noteq> None")
  case True
  let ?s1 = "s\<lparr> sticky_blobs := AList.update j d' (sticky_blobs s),
                 sticky_memory_bytes := sticky_memory_bytes s + int (length d') \<rparr>"
  have k: "stored ?s1 i d" using assms(3) by (simp add: stored_def)
  have r: "spill_ready ?s1" using assms(1) by (simp add: spill_ready_def)
  have "stored (snd (flush_blobs_to_disk ?s1)) i d" using r k by (rule flush_blobs_to_disk_stored)
  moreover have "blobs (snd (flush_blobs_to_disk ?s1)) = blobs s"
    by (simp add: flush_blobs_to_disk_blobs)
  ultimately show ?thesis
    using True k by (auto simp: store_blob_def Let_def)
next
  case False
  with assms show ?thesis
    by (auto simp: store_blob_def stored_def)
qed

lemma store_blob_unshadowed:
  assumes "map_of (disk_blobs s) i = None"
    and "blob_ref_counts s = [] \<or> map_of (blob_ref_counts s) j \<noteq> None \<or> d' = []"
  shows "map_of (sticky_blobs (snd (store_blob j d' s))) i = None
       \<or> map_of (disk_blobs (snd (store_blob j d' s))) i = None"
proof (cases "blob_ref_counts s = [] \<or> map_of (blob_ref_counts s) j \<noteq> None")
  case True
  let ?s1 = "s\<lparr> sticky_blobs := AList.update j d' (sticky_blobs s),
                 sticky_memory_bytes := sticky_memory_bytes s + int (length d') \<rparr>"
  have "map_of (sticky_blobs ?s1) i = None \<or> map_of (disk_blobs ?s1) i = None"
    using assms(1) by simp
  then have "map_of (sticky_blobs (snd (flush_blobs_to_disk ?s1))) i = None
       \<or> map_of (disk_blobs (snd (flush_blobs_to_disk ?s1))) i = None"
    by (rule flush_blobs_to_disk_unshadowed)
  then show ?thesis
    using True assms(1) by (auto simp: store_blob_def Let_def)
next
  case False
  with assms show ?thesis
    by (auto simp: store_blob_def)
qed

lemma store_blob_held:
  assumes "spill_ready s" "map_of (blobs s) i = None" "map_of (disk_blobs s) i = None"
    and "blob_ref_counts s = [] \<or> map_of (blob_ref_counts s) i \<noteq> None \<or> d = []"
  shows "held (snd (store_blob i d s)) i d"
proof -
  have "map_of (AList.update i d (sticky_blobs s)) i = Some d" by (simp add: update_conv')
  from store_blob_stored[OF assms(1) assms(4) this] store_blob_unshadowed[OF assms(3) assms(4)]
    assms(2)
  show ?thesis by (simp add: held_def)
qed

lemma decref_uncounted:
  "blob_ref_counts s = [] \<or> map_of (blob_ref_counts s) i = None \<Longrightarrow>
     decref i cache fn s = (Inr False, s)"
  by (auto simp: decref_def)

lemma decref_counted:
  "map_of (blob_ref_counts s) i = Some c \<Longrightarrow> 1 < c \<Longrightarrow>
     decref i cache fn s =
       (Inr False, s\<lparr> blob_ref_counts := AList.update i (c - 1) (blob_ref_counts s) \<rparr>)"
  by (auto simp: decref_def Let_def)

lemma decref_last_memory:
  "map_of (blob_ref_counts s) i = Some c \<Longrightarrow> c \<le> 1 \<Longrightarrow> cache_has cache i s \<Longrightarrow>
     decref i cache None s =
       (Inr True, (cache_del cache i s)\<lparr> blob_ref_counts :=
                     AList.delete i (blob_ref_counts (cache_del cache i s)) \<rparr>)"
  by (auto simp: decref_def Let_def)

lemma decref_last_file:
  "map_of (blob_ref_counts s) i = Some c \<Longrightarrow> c \<le> 1 \<Longrightarrow> cache_has cache i s \<Longrightarrow>
   map_of (fs_files (cache_del cache i s)) name \<noteq> None \<Longrightarrow>
     decref i cache (Some name) s =
       (Inr True, (cache_del cache i s)\<lparr>
          fs_files := AList.delete name (fs_files (cache_del cache i s)),
          blob_ref_counts := AList.delete i (blob_ref_counts (cache_del cache i s)) \<rparr>)"
  by (auto simp: decref_def Let_def)

lemma fetch_blob_sticky:
  "map_of (blobs s) i = None \<Longrightarrow> map_of (disk_blobs s) i = None \<Longrightarrow>
   map_of (sticky_blobs s) i = Some content \<Longrightarrow>
     fetch_blob i s =
       (case decref i StickyCache None s of
          (Inl e, s1) \<Rightarrow> (Inl e, s1)
        | (Inr True, s1) \<Rightarrow>
            (Inr content,
             s1\<lparr> sticky_memory_bytes := sticky_memory_bytes s1 - int (length content) \<rparr>)
        | (Inr False, s1) \<Rightarrow> (Inr content, s1))"
  by (simp add: fetch_blob_def)

lemma fetch_blob_small:
  "map_of (blobs s) i = None \<Longrightarrow> map_of (disk_blobs s) i = Some (offset, n_bytes, None) \<Longrightarrow>
   cleanup_small_blobs s = Some f \<Longrightarrow>
     fetch_blob i s =
       (case decref i DiskCache None s of
          (Inl e, s1) \<Rightarrow> (Inl e, s1)
        | (Inr b, s1) \<Rightarrow> (Inr (take n_bytes (drop offset f)), s1))"
  by (simp add: fetch_blob_def Let_def)

lemma fetch_blob_large:
  "map_of (blobs s) i = None \<Longrightarrow>
   map_of (disk_blobs s) i = Some (offset, n_bytes, Some name) \<Longrightarrow>
   map_of (fs_files s) name = Some content \<Longrightarrow>
     fetch_blob i s =
       (case decref i DiskCache (Some name) s of
          (Inl e, s1) \<Rightarrow> (Inl e, s1)
        | (Inr b, s1) \<Rightarrow> (Inr content, s1))"
  by (simp add: fetch_blob_def)

text \<open>The three ways in which an id is held.\<close>

lemma held_cases:
  assumes "held s i b"
  obtains
    (sticky) "map_of (blobs s) i = None" "map_of (disk_blobs s) i = None"
             "map_of (sticky_blobs s) i = Some b"
  | (small) offset f where "map_of (blobs s) i = None" "map_of (sticky_blobs s) i = None"
             "map_of (disk_blobs s) i = Some (offset, length b, None)"
             "cleanup_small_blobs s = Some f" "take (length b) (drop offset f) = b"
  | (large) name where "map_of (blobs s) i = None" "map_of (sticky_blobs s) i = None"
             "map_of (disk_blobs s) i = Some (0, length b, Some name)"
             "map_of (fs_files s) name = Some b"
  using assms
  by (auto simp: held_def stored_def spilled_def split: option.splits)

lemma fetch_blob_held_uncounted:
  assumes "held s i b" "blob_ref_counts s = [] \<or> map_of (blob_ref_counts s) i = None"
  shows "fetch_blob i s = (Inr b, s)"
  using assms(1)
proof (cases rule: held_cases)
  case sticky
  then show ?thesis by (simp add: fetch_blob_sticky decref_uncounted[OF assms(2)])
next
  case (small offset f)
  then show ?thesis by (simp add: fetch_blob_small decref_uncounted[OF assms(2)])
next
  case (large name)
  then show ?thesis by (simp add: fetch_blob_large decref_uncounted[OF assms(2)])
qed

lemma fetch_blob_held_counted:
  assumes "held s i b" "map_of (blob_ref_counts s) i = Some c" "1 < c"
  shows "fetch_blob i s =
           (Inr b, s\<lparr> blob_ref_counts := AList.update i (c - 1) (blob_ref_counts s) \<rparr>)"
  using assms(1)
proof (cases rule: held_cases)
  case sticky
  then show ?thesis by (simp add: fetch_blob_sticky decref_counted[OF assms(2,3)])
next
  case (small offset f)
  then show ?thesis by (simp add: fetch_blob_small decref_counted[OF assms(2,3)])
next
  case (large name)
  then show ?thesis by (simp add: fetch_blob_large decref_counted[OF assms(2,3)])
qed


lemma fetch_blob_held_last:
  assumes "held s i b" "map_of (blob_ref_counts s) i = Some c" "c \<le> 1"
  shows "fst (fetch_blob i s) = Inr b \<and> absent (snd (fetch_blob i s)) i
         \<and> map_of (blob_ref_counts (snd (fetch_blob i s))) i = None"
  using assms(1)
proof (cases rule: held_cases)
  case sticky
  then have "cache_has StickyCache i s" by (simp add: cache_has_def)
  from decref_last_memory[OF assms(2,3) this] sticky show ?thesis
    by (simp add: fetch_blob_sticky absent_def cache_del_def delete_conv')
next
  case (small offset f)
  then have "cache_has DiskCache i s" by (simp add: cache_has_def)
  from decref_last_memory[OF assms(2,3) this] small show ?thesis
    by (simp add: fetch_blob_small absent_def cache_del_def delete_conv')
next
  case (large name)
  then have h: "cache_has DiskCache i s" by (simp add: cache_has_def)
  have "map_of (fs_files (cache_del DiskCache i s)) name \<noteq> None"
    using large by (simp add: cache_del_def)
  from decref_last_file[OF assms(2,3) h this] large show ?thesis
    by (simp add: fetch_blob_large absent_def cache_del_def delete_conv')
qed

lemma fetch_blob_absent: "absent s i \<Longrightarrow> fetch_blob i s = (Inl KeyError, s)"
  by (simp add: absent_def fetch_blob_def)


lemma fetch_n_uncounted:
  assumes "held s i b" "blob_ref_counts s = [] \<or> map_of (blob_ref_counts s) i = None"
  shows "fetch_n n i s = (replicate n (Inr b), s)"
  by (induction n) (simp_all add: fetch_blob_held_uncounted[OF assms])

lemma decref_spill_fields:
  "tempdir (snd (decref j cache fn s)) = tempdir s
   \<and> cleanup_small_blobs (snd (decref j cache fn s)) = cleanup_small_blobs s
   \<and> fs_tempdir (snd (decref j cache fn s)) = fs_tempdir s"
  by (cases cache) (auto simp: decref_def Let_def cache_del_def split: option.splits)

lemma fetch_blob_spill_ready:
  assumes "spill_ready s"
  shows "spill_ready (snd (fetch_blob j s))"
proof -
  have keep: "spill_ready t"
    if "tempdir t = tempdir s" "cleanup_small_blobs t = cleanup_small_blobs s"
      "fs_tempdir t = fs_tempdir s" for t
    using assms that by (simp add: spill_ready_def)
  have dec: "spill_ready (snd (decref j cache fn s))" for cache fn
    using decref_spill_fields[of j cache fn s] by (intro keep) simp_all
  show ?thesis
  proof (cases "map_of (blobs s) j")
    case (Some data)
    then show ?thesis using assms by (simp add: fetch_blob_def spill_ready_def)
  next
    case None
    note b = None
    show ?thesis
    proof (cases "map_of (disk_blobs s) j")
      case None
      show ?thesis
      proof (cases "map_of (sticky_blobs s) j")
        case None
        with b \<open>map_of (disk_blobs s) j = None\<close> assms show ?thesis
          by (simp add: fetch_blob_def)
      next
        case (Some content)
        with b \<open>map_of (disk_blobs s) j = None\<close> dec[of StickyCache None] show ?thesis
          by (auto simp: fetch_blob_sticky spill_ready_def
              split: prod.splits sum.splits bool.splits)
      qed
    next
      case (Some info)
      obtain offset n_bytes fn where info: "info = (offset, n_bytes, fn)" by (cases info)
      show ?thesis
      proof (cases fn)
        case None
        with b Some info dec[of DiskCache None] assms show ?thesis
          by (auto simp: fetch_blob_def Let_def split: option.splits prod.splits sum.splits)
      next
        case (Some name)
        with b \<open>map_of (disk_blobs s) j = Some info\<close> info dec[of DiskCache "Some name"] assms
        show ?thesis
          by (auto simp: fetch_blob_def Let_def split: option.splits prod.splits sum.splits)
      qed
    qed
  qed
qed

lemma flush_blobs_to_disk_spill_ready:
  assumes "spill_ready s"
  shows "spill_ready (snd (flush_blobs_to_disk s))"
proof -
  have "tempdir (snd (flush_blobs_to_disk s)) \<noteq> None \<and> ready (snd (flush_blobs_to_disk s))"
  proof (rule flush_blobs_to_disk_preserves[where P = "\<lambda>s. tempdir s \<noteq> None \<and> ready s"])
    show "\<And>k s. tempdir s \<noteq> None \<and> ready s \<Longrightarrow>
        tempdir (snd (flush_one k s)) \<noteq> None \<and> ready (snd (flush_one k s))"
      by (auto simp: ready_def flush_one_def Let_def split: option.splits)
  next
    show "tempdir (open_tempdir s) \<noteq> None \<and> ready (open_tempdir s)"
      using assms by (auto simp: open_tempdir_def spill_ready_def ready_def)
  qed
  then show ?thesis by (auto simp: spill_ready_def ready_def)
qed

lemma store_blob_spill_ready:
  assumes "spill_ready s"
  shows "spill_ready (snd (store_blob i d s))"
proof -
  let ?s1 = "s\<lparr> sticky_blobs := AList.update i d (sticky_blobs s),
                 sticky_memory_bytes := sticky_memory_bytes s + int (length d) \<rparr>"
  have "spill_ready ?s1" using assms by (simp add: spill_ready_def)
  then have "spill_ready (snd (flush_blobs_to_disk ?s1))"
    by (rule flush_blobs_to_disk_spill_ready)
  then show ?thesis
    using assms by (auto simp: store_blob_def Let_def spill_ready_def)
qed

lemma spill_ready_kept:
  "spill_ready (CacheManager_init info)"
  "spill_ready s \<Longrightarrow> spill_ready (snd (store_blob i d s))"
  "spill_ready s \<Longrightarrow> spill_ready (snd (fetch_blob i s))"
  "spill_ready s \<Longrightarrow> spill_ready (snd (flush_blobs_to_disk s))"
  by (simp_all add: store_blob_spill_ready fetch_blob_spill_ready
      flush_blobs_to_disk_spill_ready)
     (simp add: spill_ready_def CacheManager_init_def)

section \<open>Reference counts\<close>



section \<open>Empty payloads\<close>

text \<open>
  C6, as stated, at hints that give the id the count 1: the empty payload is stored, the
  first fetch returns it and evicts the entry, the second fetch raises \<open>KeyError\<close>.
\<close>

theorem empty_blob_evicted_counterexample:
  "fst (fetch_blob ''X'' (snd (store_blob ''X'' [] (CacheManager_init (Some [(1, [''X''])])))))
     = Inr []
   \<and> absent (snd (fetch_blob ''X''
        (snd (store_blob ''X'' [] (CacheManager_init (Some [(1, [''X''])])))))) ''X''
   \<and> fst (fetch_blob ''X'' (snd (fetch_blob ''X''
        (snd (store_blob ''X'' [] (CacheManager_init (Some [(1, [''X''])])))))))
     = Inl KeyError"
proof -
  let ?s0 = "CacheManager_init (Some [(1, [''X''])])"
  have h: "held (snd (store_blob ''X'' [] ?s0)) ''X'' []"
    by (rule store_blob_held) (simp_all add: CacheManager_init_def spill_ready_def)
  have c: "map_of (blob_ref_counts (snd (store_blob ''X'' [] ?s0))) ''X'' = Some 1"
    by (simp add: store_blob_ref_counts CacheManager_init_def)
  from fetch_blob_held_last[OF h c] show ?thesis
    by (simp add: fetch_blob_absent)
qed

text \<open>
  C6, amended. The empty payload is stored under an id that has no entry in the reference
  counts and that neither the transient map nor the disk tier holds at that moment, in a
  manager that has not been finalized. Then any number of calls of \<open>fetch_blob\<close> for the
  id return the empty payload and leave the manager as it was after the store: the id stays
  held, in the sticky map or on disk.
\<close>

theorem empty_blob_without_count_retained:
  assumes "spill_ready s"
    and "map_of (blobs s) i = None" and "map_of (disk_blobs s) i = None"
    and "map_of (blob_ref_counts s) i = None"
  shows "fetch_n n i (snd (store_blob i [] s)) = (replicate n (Inr []), snd (store_blob i [] s))
     \<and> held (snd (store_blob i [] s)) i []
     \<and> \<not> absent (snd (store_blob i [] s)) i"
proof -
  let ?s1 = "snd (store_blob i [] s)"
  have h: "held ?s1 i []"
    using assms(1,2,3) by (intro store_blob_held) auto
  have c: "blob_ref_counts ?s1 = [] \<or> map_of (blob_ref_counts ?s1) i = None"
    using assms(4) by (simp add: store_blob_ref_counts)
  have "\<not> absent ?s1 i"
    using h by (auto simp: held_def stored_def spilled_def absent_def split: option.splits)
  with fetch_n_uncounted[OF h c] h show ?thesis by simp
qed

theorem empty_blob_without_count_retained_witness:
  "fetch_n 3 ''X'' (snd (store_blob ''X'' [] (CacheManager_init (Some [(2, [''Y''])]))))
     = ([Inr [], Inr [], Inr []], snd (store_blob ''X'' [] (CacheManager_init (Some [(2, [''Y''])]))))
   \<and> map_of (sticky_blobs (snd (store_blob ''X'' [] (CacheManager_init (Some [(2, [''Y''])])))))
        ''X'' = Some []"
  using empty_blob_without_count_retained
    [of "CacheManager_init (Some [(2, [''Y''])])" "''X''" 3]
  by (simp add: CacheManager_init_def spill_ready_def numeral_3_eq_3 store_blob_def)

section \<open>Tier transparency\<close>

lemma fetch_blob_held_fst: "held s i b \<Longrightarrow> fst (fetch_blob i s) = Inr b"
proof (cases "map_of (blob_ref_counts s) i")
  case None
  assume "held s i b"
  then show ?thesis using None by (simp add: fetch_blob_held_uncounted)
next
  case (Some c)
  assume h: "held s i b"
  show ?thesis
  proof (cases "1 < c")
    case True
    then show ?thesis using fetch_blob_held_counted[OF h Some] by simp
  next
    case False
    then show ?thesis using fetch_blob_held_last[OF h Some] by simp
  qed
qed

lemma spill_example_eq:
  "spill_example =
     \<lparr> blobs = [],
       sticky_blobs = [(''W'', replicate 104857599 CHR ''w''), (''Y'', ''hello'')],
       sticky_memory_bytes = 209715203, tempdir = None,
       disk_blobs = [], cleanup_disk_blobs = True, cleanup_tempdir = None,
       cleanup_small_blobs = None, last_ref = None, last_ids = Map.empty,
       heads = Map.empty, blob_ref_counts = [], fs_tempdir = False, fs_files = [] \<rparr>"
  by (simp add: spill_example_def store_blob_def CacheManager_init_def Let_def
      sticky_cache_size_def)

lemma spill_example_flush:
  "store_blob ''Z'' (replicate 104857600 CHR ''z'') spill_example =
     (Inr (),
      \<lparr> blobs = [], sticky_blobs = [], sticky_memory_bytes = 104857599,
        tempdir = Some mkdtemp_name,
        disk_blobs = [(''Z'', 0, 104857600, Some 1), (''W'', 0, 104857599, Some 2),
                      (''Y'', 0, 5, None)],
        cleanup_disk_blobs = True, cleanup_tempdir = Some mkdtemp_name,
        cleanup_small_blobs = Some ''hello'', last_ref = None, last_ids = Map.empty,
        heads = Map.empty, blob_ref_counts = [], fs_tempdir = True,
        fs_files = [(1, replicate 104857600 CHR ''z''), (2, replicate 104857599 CHR ''w'')] \<rparr>)"
  by (simp add: spill_example_eq store_blob_def Let_def sticky_cache_size_def
      flush_blobs_to_disk_def open_tempdir_def blob_len_def flush_loop.simps
      sticky_flushed_size_def flush_one_def small_blob_threshold_def mkstemp_def)

text \<open>
  C8. A blob is in the sticky map when \<open>store_blob\<close> (of the same or of another id, with
  a payload that is kept sticky) runs, the transient map holds nothing else under its id,
  and the manager has not been finalized. If the blob has left the sticky map when \<open>store_blob\<close>
  is over, then the store went over the high-water mark, the blob is on disk - in the
  small-blob file at its recorded offset and length when it is shorter than the threshold,
  in a file of its own otherwise - and \<open>fetch_blob\<close> returns exactly its bytes.
\<close>

theorem flushed_blob_fetched_unchanged:
  assumes "spill_ready s"
    and "map_of (blobs s) i = None \<or> map_of (blobs s) i = Some d"
    and "blob_ref_counts s = [] \<or> map_of (blob_ref_counts s) j \<noteq> None"
    and "map_of (AList.update j d' (sticky_blobs s)) i = Some d"
    and "map_of (sticky_blobs (snd (store_blob j d' s))) i = None"
  shows "fst (fetch_blob i (snd (store_blob j d' s))) = Inr d
     \<and> spilled (snd (store_blob j d' s)) i d
     \<and> sticky_cache_size < sticky_memory_bytes s + int (length d')"
proof -
  let ?s1 = "snd (store_blob j d' s)"
  have st: "stored ?s1 i d \<and> blobs ?s1 = blobs s"
    using assms(1) assms(3) assms(4) by (intro store_blob_stored) auto
  with assms(5) have sp: "spilled ?s1 i d" by (simp add: stored_def)
  have f: "fst (fetch_blob i ?s1) = Inr d"
  proof (cases "map_of (blobs s) i")
    case None
    then have "held ?s1 i d" using st assms(5) by (simp add: held_def)
    then show ?thesis by (rule fetch_blob_held_fst)
  next
    case (Some c)
    with assms(2) st have "map_of (blobs ?s1) i = Some d" by simp
    then show ?thesis by (simp add: fetch_blob_def)
  qed
  have "sticky_cache_size < sticky_memory_bytes s + int (length d')"
  proof (rule ccontr)
    assume "\<not> sticky_cache_size < sticky_memory_bytes s + int (length d')"
    then have "sticky_blobs ?s1 = AList.update j d' (sticky_blobs s)"
      using assms(3) by (auto simp: store_blob_def Let_def)
    with assms(4,5) show False by simp
  qed
  with f sp show ?thesis by simp
qed

theorem flushed_blob_fetched_unchanged_witness:
  "fst (fetch_blob ''Y'' (snd (store_blob ''Z'' (replicate 104857600 CHR ''z'') spill_example)))
     = Inr ''hello''
   \<and> map_of (disk_blobs (snd (store_blob ''Z'' (replicate 104857600 CHR ''z'') spill_example)))
       ''Y'' = Some (0, 5, None)
   \<and> cleanup_small_blobs (snd (store_blob ''Z'' (replicate 104857600 CHR ''z'') spill_example))
       = Some ''hello''"
  using flushed_blob_fetched_unchanged
    [where s = spill_example and i = "''Y''" and d = "''hello''" and j = "''Z''"
       and d' = "replicate 104857600 CHR ''z''"]
  by (simp add: spill_example_flush)
     (simp add: spill_example_eq spill_ready_def)

section \<open>One tier at a time\<close>

lemma tiers_disjoint_iff: "tiers_disjoint s \<longleftrightarrow> (\<forall>i. disjoint_at s i)"
proof -
  have k: "\<And>al :: (string \<times> string) list. \<And>i. (map_of al i = None) = (i \<notin> fst ` set al)"
    by (simp add: map_of_eq_None_iff)
  have k': "\<And>al :: (string \<times> disk_info) list. \<And>i. (map_of al i = None) = (i \<notin> fst ` set al)"
    by (simp add: map_of_eq_None_iff)
  show ?thesis
    unfolding tiers_disjoint_def disjoint_at_def k k' by blast
qed

lemma flush_one_disjoint_at:
  assumes "disjoint_at s i"
  shows "disjoint_at (snd (flush_one k s)) i"
proof (cases "k = i")
  case False
  with assms show ?thesis
    by (simp add: disjoint_at_def flush_one_other_sticky flush_one_other_disk flush_one_blobs)
next
  case True
  show ?thesis
  proof (cases "map_of (sticky_blobs s) i")
    case None
    with assms True show ?thesis by (simp add: flush_one_missing)
  next
    case (Some b)
    with assms have "map_of (blobs s) i = None" by (simp add: disjoint_at_def)
    then show ?thesis
      using True by (simp add: disjoint_at_def flush_one_self_sticky flush_one_blobs)
  qed
qed

lemma flush_blobs_to_disk_disjoint_at:
  assumes "disjoint_at s i"
  shows "disjoint_at (snd (flush_blobs_to_disk s)) i"
proof (rule flush_blobs_to_disk_preserves[where P = "\<lambda>s. disjoint_at s i"])
  show "\<And>k s. disjoint_at s i \<Longrightarrow> disjoint_at (snd (flush_one k s)) i"
    by (rule flush_one_disjoint_at)
next
  show "disjoint_at (open_tempdir s) i"
    using assms by (simp add: disjoint_at_def open_tempdir_fields)
qed

lemma store_blob_disjoint_at:
  assumes "disjoint_at s i" "absent s j"
  shows "disjoint_at (snd (store_blob j d s)) i"
proof (cases "blob_ref_counts s = [] \<or> map_of (blob_ref_counts s) j \<noteq> None")
  case True
  let ?s1 = "s\<lparr> sticky_blobs := AList.update j d (sticky_blobs s),
                 sticky_memory_bytes := sticky_memory_bytes s + int (length d) \<rparr>"
  have d1: "disjoint_at ?s1 i"
    using assms by (auto simp: disjoint_at_def absent_def update_conv')
  then have "disjoint_at (snd (flush_blobs_to_disk ?s1)) i"
    by (rule flush_blobs_to_disk_disjoint_at)
  with d1 True show ?thesis by (auto simp: store_blob_def Let_def)
next
  case False
  with assms show ?thesis
    by (auto simp: store_blob_def disjoint_at_def absent_def update_conv')
qed

text \<open>\<open>_decref\<close> and \<open>fetch_blob\<close> add no entry to any tier.\<close>

definition shrinks :: "CacheManager \<Rightarrow> CacheManager \<Rightarrow> string \<Rightarrow> bool" where
  "shrinks s s' i =
     ((map_of (blobs s) i = None \<longrightarrow> map_of (blobs s') i = None)
      \<and> (map_of (sticky_blobs s) i = None \<longrightarrow> map_of (sticky_blobs s') i = None)
      \<and> (map_of (disk_blobs s) i = None \<longrightarrow> map_of (disk_blobs s') i = None))"

lemma decref_shrinks: "shrinks s (snd (decref j cache fn s)) i"
  by (cases cache)
     (auto simp: shrinks_def decref_def Let_def cache_del_def delete_conv'
       split: option.splits)

lemma shrinks_disjoint_at: "shrinks s s' i \<Longrightarrow> disjoint_at s i \<Longrightarrow> disjoint_at s' i"
  by (auto simp: shrinks_def disjoint_at_def)

lemma fetch_blob_shrinks: "shrinks s (snd (fetch_blob j s)) i"
proof (cases "map_of (blobs s) j")
  case (Some data)
  then show ?thesis by (simp add: fetch_blob_def shrinks_def delete_conv')
next
  case None
  note b = None
  show ?thesis
  proof (cases "map_of (disk_blobs s) j")
    case None
    show ?thesis
    proof (cases "map_of (sticky_blobs s) j")
      case None
      with b \<open>map_of (disk_blobs s) j = None\<close> show ?thesis
        by (simp add: fetch_blob_def shrinks_def)
    next
      case (Some content)
      have "shrinks s (snd (decref j StickyCache None s)) i" by (rule decref_shrinks)
      with b \<open>map_of (disk_blobs s) j = None\<close> Some show ?thesis
        by (auto simp: fetch_blob_sticky shrinks_def split: prod.splits sum.splits bool.splits)
    qed
  next
    case (Some info)
    obtain offset n_bytes fn where info: "info = (offset, n_bytes, fn)" by (cases info)
    have d: "shrinks s (snd (decref j DiskCache fn s)) i" by (rule decref_shrinks)
    show ?thesis
    proof (cases fn)
      case None
      with b Some info d show ?thesis
        by (auto simp: fetch_blob_def Let_def shrinks_def
            split: option.splits prod.splits sum.splits)
    next
      case (Some name)
      with b \<open>map_of (disk_blobs s) j = Some info\<close> info d show ?thesis
        by (auto simp: fetch_blob_def Let_def shrinks_def
            split: option.splits prod.splits sum.splits)
    qed
  qed
qed

lemma reachable_disjoint_at: "reachable s \<Longrightarrow> disjoint_at s i"
proof (induction rule: reachable.induct)
  case (init info)
  show ?case by (simp add: disjoint_at_def CacheManager_init_def)
next
  case (store s j d)
  then show ?case by (simp add: store_blob_disjoint_at)
next
  case (fetch s j)
  then show ?case using fetch_blob_shrinks shrinks_disjoint_at by blast
next
  case (flush s)
  then show ?case by (simp add: flush_blobs_to_disk_disjoint_at)
qed

text \<open>
  C7, as stated, for a manager seeded with the count 1 for \<open>Y\<close>: \<open>X\<close> is stored while
  counts are tracked and has none, so it goes to the transient map; fetching \<open>Y\<close> uses
  up the last count; the same payload stored again under \<open>X\<close> now goes to the sticky map,
  and \<open>X\<close> is in two tiers.
\<close>

theorem tiers_overlap_counterexample:
  "map_of (blobs (snd (store_blob ''X'' ''a'' (snd (fetch_blob ''Y''
      (snd (store_blob ''X'' ''a'' (snd (store_blob ''Y'' ''y''
        (CacheManager_init (Some [(1, [''Y''])]))))))))))) ''X'' = Some ''a''
   \<and> map_of (sticky_blobs (snd (store_blob ''X'' ''a'' (snd (fetch_blob ''Y''
      (snd (store_blob ''X'' ''a'' (snd (store_blob ''Y'' ''y''
        (CacheManager_init (Some [(1, [''Y''])]))))))))))) ''X'' = Some ''a''"
  by (simp add: store_blob_def fetch_blob_def decref_def CacheManager_init_def Let_def
      cache_has_def cache_del_def sticky_cache_size_def)

text \<open>
  C7, amended. In every state reached from a new manager by \<open>store_blob\<close>, \<open>fetch_blob\<close>
  and flushes to disk, \<open>store_blob\<close> being called only for ids that no tier holds at
  that moment, each id is in at most one of the transient map, the sticky map and the
  disk tier.
\<close>

theorem reachable_tiers_disjoint: "reachable s \<Longrightarrow> tiers_disjoint s"
  by (simp add: tiers_disjoint_iff reachable_disjoint_at)

theorem reachable_tiers_disjoint_witness:
  "tiers_disjoint (snd (fetch_blob ''Y'' (snd (store_blob ''X'' ''a''
      (snd (store_blob ''Y'' ''y'' (CacheManager_init (Some [(1, [''Y''])]))))))))"
proof -
  let ?s0 = "CacheManager_init (Some [(1, [''Y''])])"
  have r0: "reachable ?s0" by (rule reachable.init)
  have "absent ?s0 ''Y''" by (simp add: absent_def CacheManager_init_def)
  with r0 have r1: "reachable (snd (store_blob ''Y'' ''y'' ?s0))" by (rule reachable.store)
  have "absent (snd (store_blob ''Y'' ''y'' ?s0)) ''X''"
    by (simp add: absent_def CacheManager_init_def store_blob_def Let_def sticky_cache_size_def)
  with r1 have "reachable (snd (store_blob ''X'' ''a'' (snd (store_blob ''Y'' ''y'' ?s0))))"
    by (rule reachable.store)
  then have "reachable (snd (fetch_blob ''Y''
      (snd (store_blob ''X'' ''a'' (snd (store_blob ''Y'' ''y'' ?s0))))))"
    by (rule reachable.fetch)
  then show ?thesis by (rule reachable_tiers_disjoint)
qed

section \<open>The order and the extent of a flush\<close>

lemma flush_one_mem:
  "ready s \<Longrightarrow> map_of (sticky_blobs s) k = Some b \<Longrightarrow>
     sticky_memory_bytes (snd (flush_one k s)) = sticky_memory_bytes s - int (length b)"
  by (auto simp: ready_def flush_one_def Let_def split: option.splits)

lemma flush_one_sticky_map:
  "map_of (sticky_blobs (snd (flush_one k s))) = (map_of (sticky_blobs s))(k := None)"
  by (rule ext) (auto simp: flush_one_def Let_def delete_conv' split: option.splits)

lemma flush_loop_stored:
  assumes "ready s \<and> stored s i b"
  shows "ready (snd (flush_loop p s)) \<and> stored (snd (flush_loop p s)) i b"
  using flush_one_stored assms
  by (rule flush_loop_preserves[where P = "\<lambda>s. ready s \<and> stored s i b"])

lemma blob_len_fun_upd:
  "k' \<noteq> k \<Longrightarrow> blob_len al k' = (case ((map_of al)(k := None)) k' of None \<Rightarrow> 0 | Some b \<Rightarrow> length b)"
  by (simp add: blob_len_def)

lemma flush_loop_snoc_ok:
  assumes "sticky_memory_bytes s > sticky_flushed_size" "fst (flush_one k s) = Inr ()"
  shows "flush_loop (p @ [k]) s = flush_loop p (snd (flush_one k s))"
proof (cases "flush_one k s")
  case (Pair res s1)
  with assms show ?thesis by (simp add: flush_loop_snoc)
qed

lemma flush_loop_evicts:
  assumes "ready s" and "distinct p"
    and "\<forall>k\<in>set p. map_of (sticky_blobs s) k \<noteq> None"
    and "sticky_memory_bytes s \<le> (\<Sum>k\<leftarrow>p. int (blob_len (sticky_blobs s) k))"
  shows "\<exists>q ev. p = q @ ev \<and> fst (flush_loop p s) = Inr ()
     \<and> sticky_memory_bytes (snd (flush_loop p s)) \<le> sticky_flushed_size
     \<and> (ev \<noteq> [] \<longrightarrow> sticky_flushed_size <
           sticky_memory_bytes (snd (flush_loop p s)) + int (blob_len (sticky_blobs s) (hd ev)))
     \<and> map_of (sticky_blobs (snd (flush_loop p s)))
         = (\<lambda>k. if k \<in> set ev then None else map_of (sticky_blobs s) k)
     \<and> (\<forall>k\<in>set ev. \<forall>b. map_of (sticky_blobs s) k = Some b \<longrightarrow>
           spilled (snd (flush_loop p s)) k b)"
  using assms
proof (induction p arbitrary: s rule: rev_induct)
  case Nil
  then have "sticky_memory_bytes s \<le> sticky_flushed_size"
    by (simp add: sticky_flushed_size_def)
  then show ?case by (simp add: flush_loop_Nil)
next
  case (snoc k p)
  show ?case
  proof (cases "sticky_memory_bytes s > sticky_flushed_size")
    case False
    then have "flush_loop (p @ [k]) s = (Inr (), s)" by (simp add: flush_loop_snoc)
    then show ?thesis
      using False by (intro exI[of _ "p @ [k]"] exI[of _ "[]::string list"]) simp
  next
    case True
    from snoc.prems(3) obtain b where b: "map_of (sticky_blobs s) k = Some b" by auto
    let ?s1 = "snd (flush_one k s)"
    have loop: "flush_loop (p @ [k]) s = flush_loop p ?s1"
      using True flush_one_self[OF snoc.prems(1) b] by (simp add: flush_loop_snoc_ok)
    have r1: "ready ?s1" using snoc.prems(1) by (rule flush_one_ready)
    have kp: "k \<notin> set p" and dp: "distinct p" using snoc.prems(2) by auto
    have same: "\<And>k'. k' \<in> set p \<Longrightarrow> map_of (sticky_blobs ?s1) k' = map_of (sticky_blobs s) k'"
      using kp by (auto simp: flush_one_sticky_map)
    then have len: "\<And>k'. k' \<in> set p \<Longrightarrow>
        blob_len (sticky_blobs ?s1) k' = blob_len (sticky_blobs s) k'"
      by (simp add: blob_len_def)
    have in1: "\<forall>k'\<in>set p. map_of (sticky_blobs ?s1) k' \<noteq> None"
      using snoc.prems(3) same by simp
    have m1: "sticky_memory_bytes ?s1 = sticky_memory_bytes s - int (length b)"
      using snoc.prems(1) b by (rule flush_one_mem)
    have "(\<Sum>k'\<leftarrow>p. int (blob_len (sticky_blobs ?s1) k'))
        = (\<Sum>k'\<leftarrow>p. int (blob_len (sticky_blobs s) k'))"
      using len by (intro arg_cong[where f = sum_list] map_cong) simp_all
    moreover have "blob_len (sticky_blobs s) k = length b" using b by (simp add: blob_len_def)
    ultimately have sum1: "sticky_memory_bytes ?s1 \<le> (\<Sum>k'\<leftarrow>p. int (blob_len (sticky_blobs ?s1) k'))"
      using snoc.prems(4) m1 by simp
    from snoc.IH[OF r1 dp in1 sum1] obtain q ev where
      pq: "p = q @ ev" and ok: "fst (flush_loop p ?s1) = Inr ()"
      and low: "sticky_memory_bytes (snd (flush_loop p ?s1)) \<le> sticky_flushed_size"
      and minimal: "ev \<noteq> [] \<longrightarrow> sticky_flushed_size <
           sticky_memory_bytes (snd (flush_loop p ?s1)) + int (blob_len (sticky_blobs ?s1) (hd ev))"
      and smap: "map_of (sticky_blobs (snd (flush_loop p ?s1)))
         = (\<lambda>k. if k \<in> set ev then None else map_of (sticky_blobs ?s1) k)"
      and sp: "\<forall>k\<in>set ev. \<forall>b. map_of (sticky_blobs ?s1) k = Some b \<longrightarrow>
           spilled (snd (flush_loop p ?s1)) k b"
      by blast
    let ?s' = "snd (flush_loop p ?s1)"
    have spk: "spilled ?s' k b"
    proof -
      have "stored ?s1 k b" using flush_one_self[OF snoc.prems(1) b] by (simp add: stored_def)
      with r1 have "stored ?s' k b" using flush_loop_stored by blast
      moreover have "map_of (sticky_blobs ?s') k = None"
        by (simp add: smap flush_one_sticky_map)
      ultimately show ?thesis by (simp add: stored_def)
    qed
    have min': "sticky_flushed_size <
        sticky_memory_bytes ?s' + int (blob_len (sticky_blobs s) (hd (ev @ [k])))"
    proof (cases "ev = []")
      case True
      then have "p = q" using pq by simp
      have "flush_loop p ?s1 = (Inr (), ?s1) \<or> sticky_memory_bytes ?s1 > sticky_flushed_size"
        by (cases p rule: rev_cases) (simp_all add: flush_loop_Nil flush_loop_snoc)
      moreover have "sticky_memory_bytes ?s1 > sticky_flushed_size \<Longrightarrow> False"
      proof -
        assume gt: "sticky_memory_bytes ?s1 > sticky_flushed_size"
        have "map_of (sticky_blobs ?s') = map_of (sticky_blobs ?s1)" using smap True by simp
        show False
        proof (cases p rule: rev_cases)
          case Nil
          with gt ok show False by (simp add: flush_loop_Nil)
        next
          case (snoc p' k')
          then have "k' \<in> set p" by simp
          then obtain b' where b': "map_of (sticky_blobs ?s1) k' = Some b'" using in1 by auto
          have "flush_loop p ?s1 = flush_loop p' (snd (flush_one k' ?s1))"
            using gt snoc flush_one_self[OF r1 b'] by (simp add: flush_loop_snoc_ok)
          moreover have "map_of (sticky_blobs (snd (flush_loop p' (snd (flush_one k' ?s1))))) k' = None"
            by (rule flush_loop_preserves[where P = "\<lambda>t. map_of (sticky_blobs t) k' = None"])
               (simp_all add: flush_one_sticky_map)
          ultimately have "map_of (sticky_blobs ?s') k' = None" by simp
          with \<open>map_of (sticky_blobs ?s') = map_of (sticky_blobs ?s1)\<close> b' show False by simp
        qed
      qed
      ultimately have "flush_loop p ?s1 = (Inr (), ?s1)" by blast
      then have "?s' = ?s1" by simp
      with True m1 b \<open>sticky_memory_bytes s > sticky_flushed_size\<close> show ?thesis
        by (simp add: blob_len_def)
    next
      case False
      then have "hd ev \<in> set p" using pq by (cases ev) auto
      with False minimal len show ?thesis by simp
    qed
    show ?thesis
    proof (rule exI[of _ q], rule exI[of _ "ev @ [k]"], intro conjI)
      show "p @ [k] = q @ ev @ [k]" using pq by simp
      show "fst (flush_loop (p @ [k]) s) = Inr ()" using loop ok by simp
      show "sticky_memory_bytes (snd (flush_loop (p @ [k]) s)) \<le> sticky_flushed_size"
        using loop low by simp
      show "ev @ [k] \<noteq> [] \<longrightarrow> sticky_flushed_size <
          sticky_memory_bytes (snd (flush_loop (p @ [k]) s))
            + int (blob_len (sticky_blobs s) (hd (ev @ [k])))"
        using loop min' by simp
      show "map_of (sticky_blobs (snd (flush_loop (p @ [k]) s)))
          = (\<lambda>k'. if k' \<in> set (ev @ [k]) then None else map_of (sticky_blobs s) k')"
        using loop smap by (auto simp: flush_one_sticky_map fun_eq_iff)
      show "\<forall>k'\<in>set (ev @ [k]). \<forall>b'. map_of (sticky_blobs s) k' = Some b' \<longrightarrow>
          spilled (snd (flush_loop (p @ [k]) s)) k' b'"
      proof (intro ballI allI impI)
        fix k' b'
        assume k': "k' \<in> set (ev @ [k])" and b': "map_of (sticky_blobs s) k' = Some b'"
        show "spilled (snd (flush_loop (p @ [k]) s)) k' b'"
        proof (cases "k' = k")
          case True
          with b b' spk loop show ?thesis by simp
        next
          case False
          with k' have kev: "k' \<in> set ev" by simp
          then have "k' \<in> set p" using pq by simp
          then have "map_of (sticky_blobs ?s1) k' = Some b'" using same b' by simp
          with sp kev loop show ?thesis by simp
        qed
      qed
    qed
  qed
qed


lemma sum_list_insort_key:
  "(\<Sum>k\<leftarrow>insort_key f x xs. g k) = (g x :: int) + (\<Sum>k\<leftarrow>xs. g k)"
  by (induction xs) simp_all

lemma sum_list_sort_key: "(\<Sum>k\<leftarrow>sort_key f xs. g k) = (\<Sum>k\<leftarrow>xs. (g k :: int))"
  by (induction xs) (simp_all add: sum_list_insort_key)

lemma sum_blob_len_keys:
  "distinct (map fst al) \<Longrightarrow> (\<Sum>k\<leftarrow>map fst al. int (blob_len al k)) = sticky_total al"
proof (induction al)
  case Nil
  then show ?case by (simp add: sticky_total_def)
next
  case (Cons kb al)
  obtain k b where kb: "kb = (k, b)" by (cases kb)
  have "\<And>k'. k' \<in> set (map fst al) \<Longrightarrow> blob_len (kb # al) k' = blob_len al k'"
    using Cons.prems kb by (auto simp: blob_len_def)
  then have "(\<Sum>k'\<leftarrow>map fst al. int (blob_len (kb # al) k'))
      = (\<Sum>k'\<leftarrow>map fst al. int (blob_len al k'))"
    by (intro arg_cong[where f = sum_list] map_cong) simp_all
  with Cons kb show ?case by (simp add: blob_len_def sticky_total_def)
qed

lemma update_absent: "map_of al i = None \<Longrightarrow> AList.update i d al = al @ [(i, d)]"
  by (induction al) (auto split: if_splits)

lemma sticky_total_update_absent:
  "map_of al i = None \<Longrightarrow> sticky_total (AList.update i d al) = sticky_total al + int (length d)"
  by (simp add: update_absent sticky_total_def)

lemma sorted_hd_le:
  "sorted (map f ev) \<Longrightarrow> x \<in> set ev \<Longrightarrow> f (hd ev) \<le> (f x :: nat)"
  by (cases ev) auto

lemma flush_blobs_to_disk_evicts:
  assumes "spill_ready s" and "distinct (map fst (sticky_blobs s))"
    and "sticky_memory_bytes s \<le> sticky_total (sticky_blobs s)"
  shows "fst (flush_blobs_to_disk s) = Inr ()
    \<and> sticky_memory_bytes (snd (flush_blobs_to_disk s)) \<le> sticky_flushed_size
    \<and> (\<forall>x b. map_of (sticky_blobs s) x = Some b
              \<and> map_of (sticky_blobs (snd (flush_blobs_to_disk s))) x = None \<longrightarrow>
          spilled (snd (flush_blobs_to_disk s)) x b
          \<and> sticky_flushed_size < sticky_memory_bytes (snd (flush_blobs_to_disk s)) + int (length b)
          \<and> (\<forall>y c. map_of (sticky_blobs (snd (flush_blobs_to_disk s))) y = Some c \<longrightarrow>
                length c \<le> length b))
    \<and> (\<forall>y c. map_of (sticky_blobs (snd (flush_blobs_to_disk s))) y = Some c \<longrightarrow>
          map_of (sticky_blobs s) y = Some c)"
proof -
  let ?al = "sticky_blobs s"
  let ?f = "blob_len ?al"
  let ?p = "sort_key ?f (map fst ?al)"
  let ?s1 = "open_tempdir s"
  let ?s' = "snd (flush_loop ?p ?s1)"
  have s': "flush_blobs_to_disk s = flush_loop ?p ?s1"
    by (simp add: flush_blobs_to_disk_def Let_def)
  have r: "ready ?s1" using assms(1) by (rule open_tempdir_ready)
  have d: "distinct ?p" using assms(2) by simp
  have inp: "\<forall>k\<in>set ?p. map_of (sticky_blobs ?s1) k \<noteq> None"
    by (simp add: open_tempdir_fields map_of_eq_None_iff)
  have "(\<Sum>k\<leftarrow>?p. int (?f k)) = (\<Sum>k\<leftarrow>map fst ?al. int (?f k))"
    by (rule sum_list_sort_key)
  also have "\<dots> = sticky_total ?al" using assms(2) by (rule sum_blob_len_keys)
  finally have "(\<Sum>k\<leftarrow>?p. int (blob_len (sticky_blobs ?s1) k)) = sticky_total ?al"
    by (simp only: open_tempdir_fields)
  then have le: "sticky_memory_bytes ?s1 \<le> (\<Sum>k\<leftarrow>?p. int (blob_len (sticky_blobs ?s1) k))"
    using assms(3) by (simp add: open_tempdir_fields)
  have "\<exists>q ev. ?p = q @ ev \<and> fst (flush_loop ?p ?s1) = Inr ()
     \<and> sticky_memory_bytes ?s' \<le> sticky_flushed_size
     \<and> (ev \<noteq> [] \<longrightarrow> sticky_flushed_size < sticky_memory_bytes ?s' + int (?f (hd ev)))
     \<and> map_of (sticky_blobs ?s') = (\<lambda>k. if k \<in> set ev then None else map_of ?al k)
     \<and> (\<forall>k\<in>set ev. \<forall>b. map_of ?al k = Some b \<longrightarrow> spilled ?s' k b)"
    using flush_loop_evicts[OF r d inp le] by (simp only: open_tempdir_fields)
  then obtain q ev where
    pq: "?p = q @ ev" and ok: "fst (flush_loop ?p ?s1) = Inr ()"
    and low: "sticky_memory_bytes ?s' \<le> sticky_flushed_size"
    and minimal: "ev \<noteq> [] \<longrightarrow> sticky_flushed_size <
         sticky_memory_bytes ?s' + int (?f (hd ev))"
    and smap: "map_of (sticky_blobs ?s')
         = (\<lambda>k. if k \<in> set ev then None else map_of ?al k)"
    and sp: "\<forall>k\<in>set ev. \<forall>b. map_of ?al k = Some b \<longrightarrow> spilled ?s' k b"
    by blast
  have srt: "sorted (map ?f (q @ ev))" using pq sorted_sort_key[of ?f "map fst ?al"] by simp
  have evicted: "spilled ?s' x b
          \<and> sticky_flushed_size < sticky_memory_bytes ?s' + int (length b)
          \<and> (\<forall>y c. map_of (sticky_blobs ?s') y = Some c \<longrightarrow> length c \<le> length b)"
    if x: "map_of ?al x = Some b" "map_of (sticky_blobs ?s') x = None" for x b
  proof -
    have xev: "x \<in> set ev" using x smap by (auto simp: fun_eq_iff split: if_splits)
    have fx: "?f x = length b" using x(1) by (simp add: blob_len_def)
    have "?f (hd ev) \<le> ?f x" using srt xev by (intro sorted_hd_le) (simp_all add: sorted_append)
    with minimal xev fx have m: "sticky_flushed_size < sticky_memory_bytes ?s' + int (length b)"
      by auto
    have "length c \<le> length b" if y: "map_of (sticky_blobs ?s') y = Some c" for y c
    proof -
      from y smap have yn: "y \<notin> set ev" and yc: "map_of ?al y = Some c"
        by (auto simp: fun_eq_iff split: if_splits)
      from yc have "y \<in> fst ` set ?al" by (metis map_of_eq_None_iff option.distinct(1))
      then have "y \<in> set ?p" by simp
      with yn pq have "y \<in> set q" by auto
      with srt xev have "?f y \<le> ?f x" by (auto simp: sorted_append)
      with fx yc show ?thesis by (simp add: blob_len_def)
    qed
    with sp xev x(1) m show ?thesis by blast
  qed
  have kept: "map_of ?al y = Some c" if "map_of (sticky_blobs ?s') y = Some c" for y c
    using that smap by (auto simp: fun_eq_iff split: if_splits)
  show ?thesis
    unfolding s' using ok low evicted kept by blast
qed


lemma flush_order_example_eq:
  "flush_order_example =
     \<lparr> blobs = [], sticky_blobs = [(''A'', replicate 220200960 CHR ''a'')],
       sticky_memory_bytes = 220200960, tempdir = None,
       disk_blobs = [], cleanup_disk_blobs = True, cleanup_tempdir = None,
       cleanup_small_blobs = None, last_ref = None, last_ids = Map.empty,
       heads = Map.empty, blob_ref_counts = [], fs_tempdir = False, fs_files = [] \<rparr>"
  by (simp add: flush_order_example_def store_blob_def CacheManager_init_def Let_def
      sticky_cache_size_def)

lemma flush_order_example_flush:
  "store_blob ''B'' (replicate 104857600 CHR ''b'') flush_order_example =
     (Inr (),
      \<lparr> blobs = [], sticky_blobs = [(''B'', replicate 104857600 CHR ''b'')],
        sticky_memory_bytes = 104857600, tempdir = Some mkdtemp_name,
        disk_blobs = [(''A'', 0, 220200960, Some 1)],
        cleanup_disk_blobs = True, cleanup_tempdir = Some mkdtemp_name,
        cleanup_small_blobs = Some [], last_ref = None, last_ids = Map.empty,
        heads = Map.empty, blob_ref_counts = [], fs_tempdir = True,
        fs_files = [(1, replicate 220200960 CHR ''a'')] \<rparr>)"
  by (simp add: flush_order_example_eq store_blob_def Let_def sticky_cache_size_def
      flush_blobs_to_disk_def open_tempdir_def blob_len_def flush_loop.simps
      sticky_flushed_size_def flush_one_def small_blob_threshold_def mkstemp_def)

text \<open>
  C1, as stated, with 210 MiB under \<open>A\<close> in the sticky map and 100 MiB stored under \<open>B\<close>:
  the store goes over the high-water mark and the flush evicts \<open>A\<close>, the larger blob,
  to a file of its own; \<open>B\<close>, the smaller one, stays in memory, and the flush stops with
  the byte counter at the low-water mark, not below it.
\<close>

theorem flush_smallest_first_counterexample:
  "map_of (sticky_blobs (snd (store_blob ''B'' (replicate 104857600 CHR ''b'')
       flush_order_example))) ''B'' = Some (replicate 104857600 CHR ''b'')
   \<and> map_of (sticky_blobs (snd (store_blob ''B'' (replicate 104857600 CHR ''b'')
       flush_order_example))) ''A'' = None
   \<and> map_of (disk_blobs (snd (store_blob ''B'' (replicate 104857600 CHR ''b'')
       flush_order_example))) ''A'' = Some (0, 220200960, Some 1)
   \<and> length (replicate 104857600 CHR ''b'') < length (replicate 220200960 CHR ''a'')
   \<and> sticky_memory_bytes (snd (store_blob ''B'' (replicate 104857600 CHR ''b'')
       flush_order_example)) = sticky_flushed_size"
  by (simp add: flush_order_example_flush sticky_flushed_size_def)

text \<open>
  C1, amended. \<open>store_blob\<close> keeps a blob sticky, under an id new to the sticky map, in a
  manager that has not been finalized and whose byte counter equals the bytes in its
  sticky map; with the blob the counter goes over the high-water mark (300 MiB). Then
  \<open>store_blob\<close> returns normally after a flush that leaves the counter at or below the
  low-water mark (100 MiB). The flush evicts largest first: every blob it evicted is at
  least as long as every blob it left in the sticky map, and it evicted none beyond need
  (with any evicted blob back in memory the counter would be over the low-water mark).
  Every evicted blob shorter than 75 KiB is recorded as \<open>(offset, length, None)\<close> and its
  bytes stand at that place in the one small-blob file; every other evicted blob is
  recorded as \<open>(0, length, name)\<close> and \<open>name\<close> is a file holding its bytes. The blobs left
  in the sticky map are unchanged.
\<close>

theorem store_blob_flushes_largest_first:
  assumes "spill_ready s"
    and "blob_ref_counts s = [] \<or> map_of (blob_ref_counts s) i \<noteq> None"
    and "distinct (map fst (sticky_blobs s))"
    and "sticky_memory_bytes s = sticky_total (sticky_blobs s)"
    and "map_of (sticky_blobs s) i = None"
    and "sticky_cache_size < sticky_memory_bytes s + int (length d)"
  shows "fst (store_blob i d s) = Inr ()
    \<and> sticky_memory_bytes (snd (store_blob i d s)) \<le> sticky_flushed_size
    \<and> (\<forall>x b. map_of (AList.update i d (sticky_blobs s)) x = Some b
              \<and> map_of (sticky_blobs (snd (store_blob i d s))) x = None \<longrightarrow>
          spilled (snd (store_blob i d s)) x b
          \<and> sticky_flushed_size < sticky_memory_bytes (snd (store_blob i d s)) + int (length b)
          \<and> (\<forall>y c. map_of (sticky_blobs (snd (store_blob i d s))) y = Some c \<longrightarrow>
                length c \<le> length b))
    \<and> (\<forall>y c. map_of (sticky_blobs (snd (store_blob i d s))) y = Some c \<longrightarrow>
          map_of (AList.update i d (sticky_blobs s)) y = Some c)"
proof -
  let ?s1 = "s\<lparr> sticky_blobs := AList.update i d (sticky_blobs s),
                 sticky_memory_bytes := sticky_memory_bytes s + int (length d) \<rparr>"
  have st: "store_blob i d s = flush_blobs_to_disk ?s1"
    using assms(2,6) by (auto simp: store_blob_def Let_def)
  have r: "spill_ready ?s1" using assms(1) by (simp add: spill_ready_def)
  have d: "distinct (map fst (sticky_blobs ?s1))"
    using assms(3) by (simp add: distinct_update)
  have m: "sticky_memory_bytes ?s1 \<le> sticky_total (sticky_blobs ?s1)"
    using assms(4,5) by (simp add: sticky_total_update_absent)
  from flush_blobs_to_disk_evicts[OF r d m] show ?thesis
    unfolding st by simp
qed

theorem store_blob_flushes_largest_first_witness:
  "fst (store_blob ''B'' (replicate 104857600 CHR ''b'') flush_order_example) = Inr ()
   \<and> sticky_memory_bytes (snd (store_blob ''B'' (replicate 104857600 CHR ''b'')
        flush_order_example)) \<le> sticky_flushed_size
   \<and> spilled (snd (store_blob ''B'' (replicate 104857600 CHR ''b'') flush_order_example))
        ''A'' (replicate 220200960 CHR ''a'')"
proof -
  have h: "spill_ready flush_order_example"
    "blob_ref_counts flush_order_example = []
       \<or> map_of (blob_ref_counts flush_order_example) ''B'' \<noteq> None"
    "distinct (map fst (sticky_blobs flush_order_example))"
    "sticky_memory_bytes flush_order_example = sticky_total (sticky_blobs flush_order_example)"
    "map_of (sticky_blobs flush_order_example) ''B'' = None"
    "sticky_cache_size < sticky_memory_bytes flush_order_example
       + int (length (replicate 104857600 CHR ''b''))"
    by (simp_all add: flush_order_example_eq spill_ready_def sticky_total_def
        sticky_cache_size_def)
  have a: "map_of (AList.update ''B'' (replicate 104857600 CHR ''b'')
        (sticky_blobs flush_order_example)) ''A'' = Some (replicate 220200960 CHR ''a'')"
    by (simp add: flush_order_example_eq)
  have b: "map_of (sticky_blobs (snd (store_blob ''B'' (replicate 104857600 CHR ''b'')
        flush_order_example))) ''A'' = None"
    by (simp add: flush_order_example_flush)
  from store_blob_flushes_largest_first[OF h] a b show ?thesis by blast
qed

section \<open>Teardown\<close>

lemma finalize_example_store:
  "store_blob ''a'' (replicate 314572801 CHR ''x'') (CacheManager_init None) =
     (Inr (),
      \<lparr> blobs = [], sticky_blobs = [], sticky_memory_bytes = 0, tempdir = Some mkdtemp_name,
        disk_blobs = [(''a'', 0, 314572801, Some 1)],
        cleanup_disk_blobs = True, cleanup_tempdir = Some mkdtemp_name,
        cleanup_small_blobs = Some [], last_ref = None, last_ids = Map.empty,
        heads = Map.empty, blob_ref_counts = [], fs_tempdir = True,
        fs_files = [(1, replicate 314572801 CHR ''x'')] \<rparr>)"
  by (simp add: CacheManager_init_def store_blob_def Let_def sticky_cache_size_def
      flush_blobs_to_disk_def open_tempdir_def blob_len_def flush_loop.simps
      sticky_flushed_size_def flush_one_def small_blob_threshold_def mkstemp_def)

text \<open>
  C5. A new manager has no temporary directory and no small-blob file, and its \<open>finalize\<close>
  returns normally. After the first flush (one blob of 300 MiB + 1 stored in a manager
  without hints) \<open>finalize\<close> unlinks the blob's file and closes the small-blob file, and
  then raises \<open>NameError\<close> at \<open>shutils.rmtree\<close>: the temporary directory stays on disk.
\<close>

theorem finalize_raises_after_flush:
  "tempdir (CacheManager_init None) = None
   \<and> cleanup_small_blobs (CacheManager_init None) = None
   \<and> \<not> fs_tempdir (CacheManager_init None)
   \<and> fst (finalize (CacheManager_init None)) = Inr ()
   \<and> fst (finalize (snd (store_blob ''a'' (replicate 314572801 CHR ''x'')
        (CacheManager_init None)))) = Inl NameError
   \<and> fs_files (snd (finalize (snd (store_blob ''a'' (replicate 314572801 CHR ''x'')
        (CacheManager_init None))))) = []
   \<and> cleanup_small_blobs (snd (finalize (snd (store_blob ''a''
        (replicate 314572801 CHR ''x'') (CacheManager_init None))))) = None
   \<and> fs_tempdir (snd (finalize (snd (store_blob ''a'' (replicate 314572801 CHR ''x'')
        (CacheManager_init None)))))"
  by (simp add: finalize_example_store)
     (simp add: CacheManager_init_def finalize_def)

section \<open>The marks file\<close>

lemma file_lines_line:
  "newline \<notin> set body \<Longrightarrow>
     file_lines cur (body @ newline # rest) = (cur @ body @ [newline]) # file_lines [] rest"
  by (induction body arbitrary: cur) auto

lemma marks_line_body: "marks_line mr = line_body mr @ [newline]"
  by (simp add: marks_line_def line_body_def)

lemma line_body_no_newline:
  "newline \<notin> set (fst mr) \<Longrightarrow> newline \<notin> set (snd mr) \<Longrightarrow> newline \<notin> set (line_body mr)"
  by (simp add: line_body_def newline_def)

lemma file_lines_marks:
  "marks_ok m \<Longrightarrow> file_lines [] (concat (map marks_line m)) = map marks_line m"
proof (induction m)
  case Nil
  then show ?case by simp
next
  case (Cons mr m)
  have ok: "marks_ok m" using Cons.prems by (simp add: marks_ok_def)
  have n: "newline \<notin> set (line_body mr)"
    using Cons.prems by (intro line_body_no_newline) (simp_all add: marks_ok_def)
  have "file_lines [] (concat (map marks_line (mr # m)))
      = file_lines [] (line_body mr @ newline # concat (map marks_line m))"
    by (simp add: marks_line_body[of mr])
  also have "\<dots> = ([] @ line_body mr @ [newline]) # file_lines [] (concat (map marks_line m))"
    using n by (rule file_lines_line)
  finally show ?case using Cons.IH[OF ok] by (simp add: marks_line_body[of mr])
qed

lemma dropWhile_first: "\<not> P x \<Longrightarrow> dropWhile P (x # xs) = x # xs"
  by simp

lemma rstrip_marks_line:
  assumes "newline \<notin> set (snd mr)"
  shows "rstrip_newline (marks_line mr) = line_body mr"
proof -
  have "line_body mr \<noteq> []" by (simp add: line_body_def)
  moreover have "last (line_body mr) \<noteq> newline"
    using assms by (cases "snd mr" rule: rev_cases) (auto simp: line_body_def newline_def)
  ultimately obtain x xs where r: "rev (line_body mr) = x # xs" and x: "x \<noteq> newline"
    by (cases "line_body mr" rule: rev_cases) auto
  have "rstrip_newline (marks_line mr) = rev (dropWhile (\<lambda>c. c = newline) (newline # x # xs))"
    by (simp add: rstrip_newline_def marks_line_body r)
  also have "\<dots> = rev (x # xs)" using x by simp
  also have "\<dots> = line_body mr" using r by (metis rev_rev_ident)
  finally show ?thesis .
qed

lemma split_at_first_space:
  "CHR '' '' \<notin> set mark \<Longrightarrow>
     dropWhile (\<lambda>c. c \<noteq> CHR '' '') (mark @ CHR '' '' # revid) = CHR '' '' # revid
     \<and> takeWhile (\<lambda>c. c \<noteq> CHR '' '') (mark @ CHR '' '' # revid) = mark"
  by (induction mark) auto

lemma split_line_body:
  assumes "CHR '' '' \<notin> set (fst mr)"
  shows "split_space (line_body mr) = Inr (CHR '':'' # fst mr, snd mr)"
  using split_at_first_space[OF assms, of "snd mr"]
  by (simp add: split_space_def line_body_def)

lemma import_lines_marks:
  "marks_ok m \<Longrightarrow>
     import_lines (map marks_line m) acc
       = Inr (fold (\<lambda>mr al. AList.update (fst mr) (snd mr) al) m acc)"
proof (induction m arbitrary: acc)
  case Nil
  then show ?case by simp
next
  case (Cons mr m)
  have ok: "marks_ok m" and sp: "CHR '' '' \<notin> set (fst mr)" and nl: "newline \<notin> set (snd mr)"
    using Cons.prems by (simp_all add: marks_ok_def)
  show ?case
    by (simp add: rstrip_marks_line[OF nl] split_line_body[OF sp] strip_colon_def Cons.IH[OF ok])
qed

lemma fold_update_distinct:
  "distinct (map fst (acc @ m)) \<Longrightarrow>
     fold (\<lambda>mr al. AList.update (fst mr) (snd mr) al) m acc = acc @ m"
proof (induction m arbitrary: acc)
  case Nil
  then show ?case by simp
next
  case (Cons mr m)
  have "map_of acc (fst mr) = None" using Cons.prems by (auto simp: map_of_eq_None_iff)
  then have "AList.update (fst mr) (snd mr) acc = acc @ [mr]"
    by (cases mr) (simp add: update_absent)
  with Cons.IH[of "acc @ [mr]"] Cons.prems show ?case by simp
qed

text \<open>
  C4, as stated, for the one-entry mapping of the mark \<open>a b\<close> to \<open>r\<close>: the line written is
  \<open>:a b r\<close>, and it is read back as the mark \<open>a\<close> with the identifier \<open>b r\<close>.
\<close>

theorem marks_round_trip_counterexample:
  "fst (import_marks (fst (snd (export_marks no_files ''marks'' [(''a b'', ''r'')]))) ''marks'')
     = Inr (Some [(''a'', ''b r'')])"
  by (simp add: import_marks_def export_marks_def no_files_def open_read_def marks_line_def
     newline_def rstrip_newline_def split_space_def strip_colon_def)

text \<open>
  C4, amended. For every mapping (a dictionary: no mark twice), empty or not, whose marks
  contain neither a space nor a newline and whose identifiers contain no newline,
  \<open>export_marks\<close> to a path that can be written and read returns normally, and
  \<open>import_marks\<close> of that path then returns exactly the mapping, without a warning.
\<close>

theorem marks_round_trip:
  assumes "distinct (map fst m)" and "marks_ok m"
    and "writable fs filename" and "readable fs filename"
  shows "fst (export_marks fs filename m) = Inr ()
     \<and> import_marks (fst (snd (export_marks fs filename m))) filename = (Inr (Some m), [])"
  using assms
  by (simp add: export_marks_def import_marks_def open_read_def file_lines_marks
      import_lines_marks fold_update_distinct[of "[]", simplified])

theorem marks_round_trip_witness:
  "import_marks (fst (snd (export_marks no_files ''marks''
       [(''1'', ''rev-a''), ('':2'', ''rev b'')]))) ''marks''
     = (Inr (Some [(''1'', ''rev-a''), ('':2'', ''rev b'')]), [])"
  using marks_round_trip [of "[(''1'', ''rev-a''), ('':2'', ''rev b'')]" no_files "''marks''"]
  by (simp add: marks_ok_def newline_def no_files_def)

text \<open>
  C9. \<open>import_marks\<close> of a path that is missing or cannot be read returns \<open>None\<close> and logs
  one warning; \<open>export_marks\<close> to a path that cannot be written returns normally, leaves
  the file system as it was and logs one warning. Neither raises.
\<close>

theorem marks_file_errors_degrade:
  "(contents fs p = None \<or> \<not> readable fs p \<longrightarrow>
      import_marks fs p =
        (Inr None, [''Could not import marks file '' @ p @ '' - not importing marks'']))
   \<and> (\<not> writable fs q \<longrightarrow>
      export_marks fs q m =
        (Inr (), fs, [''Could not open export-marks file '' @ q @ '' - not exporting marks'']))"
  by (auto simp: import_marks_def export_marks_def open_read_def split: option.splits)

theorem marks_file_errors_degrade_witness:
  "import_marks read_only_files ''/nonexistent'' =
     (Inr None, [''Could not import marks file /nonexistent - not importing marks''])
   \<and> export_marks read_only_files ''/marks'' [(''1'', ''rev-a'')] =
     (Inr (), read_only_files,
      [''Could not open export-marks file /marks - not exporting marks''])"
  using marks_file_errors_degrade
    [of read_only_files "''/nonexistent''" "''/marks''" "[(''1'', ''rev-a'')]"]
  by (simp add: read_only_files_def)

section \<open>Blob reference counts of the informational pass\<close>

lemma dom_fold_zero: "dom (fold (\<lambda>k m. m(k \<mapsto> (0::int))) ks m0) = set ks \<union> dom m0"
  by (induction ks arbitrary: m0) auto

lemma pre_process_names_ok: "names_ok cn fcn (pre_process cn fcn)"
  by (simp add: names_ok_def pre_process_def dom_fold_zero)

lemma pre_process_tracking: "tracking_of (pre_process cn fcn) m = (False, False, False, None)"
  by (simp add: tracking_of_def pre_process_def)

lemma increment_ok:
  "k \<in> dom counts \<Longrightarrow> \<exists>counts'. increment k counts = Inr counts' \<and> dom counts' = dom counts"
  by (auto simp: increment_def)

lemma count_command_ok:
  assumes "names_ok cn fcn p" "command_name cmd \<in> set cn"
  shows "\<exists>p'. count_command cmd p = Inr p' \<and> names_ok cn fcn p'
       \<and> tracking_of p' m = tracking_of p m
       \<and> blobs_new p' = blobs_new p \<and> blobs_used p' = blobs_used p
       \<and> blobs_unknown p' = blobs_unknown p \<and> info_blob_ref_counts p' = info_blob_ref_counts p"
proof -
  have "command_name cmd \<in> dom (cmd_counts p)" using assms by (auto simp: names_ok_def)
  from increment_ok[OF this] obtain counts' where
    "increment (command_name cmd) (cmd_counts p) = Inr counts'" "dom counts' = dom (cmd_counts p)"
    by blast
  with assms(1) show ?thesis
    by (simp add: count_command_def names_ok_def tracking_of_def)
qed

lemma track_blob_view: "tracking_of (track_blob m p) m = track_view (tracking_of p m)"
  by (auto simp: track_blob_def tracking_of_def split: option.splits)

lemma track_blob_other: "m' \<noteq> m \<Longrightarrow> tracking_of (track_blob m' p) m = tracking_of p m"
  by (auto simp: track_blob_def tracking_of_def split: option.splits)

lemma track_blob_names: "names_ok cn fcn (track_blob m' p) = names_ok cn fcn p"
  by (auto simp: track_blob_def names_ok_def split: option.splits)

lemma file_command_handler_ok:
  assumes "names_ok cn fcn p" "file_command_ok fcn fc" "m = CHR '':'' # mk"
  shows "\<exists>p'. file_command_handler cid fc p = Inr p' \<and> names_ok cn fcn p'
       \<and> tracking_of p' m
          = (if is_reference m fc then track_view (tracking_of p m) else tracking_of p m)"
proof -
  have "file_command_name fc \<in> dom (file_cmd_counts p)"
    using assms(1,2) by (cases fc) (auto simp: names_ok_def)
  from increment_ok[OF this] obtain counts' where
    inc: "increment (file_command_name fc) (file_cmd_counts p) = Inr counts'"
    and d: "dom counts' = dom (file_cmd_counts p)"
    by blast
  let ?p1 = "p\<lparr> file_cmd_counts := counts' \<rparr>"
  have n1: "names_ok cn fcn ?p1" using assms(1) d by (simp add: names_ok_def)
  have t1: "tracking_of ?p1 m = tracking_of p m" by (simp add: tracking_of_def)
  show ?thesis
  proof (cases fc)
    case (FileModifyCommand pth knd exe dref)
    let ?p2 = "if exe then ?p1\<lparr> executables_found := True \<rparr> else ?p1"
    let ?p3 = "if knd = SYMLINK_KIND then ?p2\<lparr> symlinks_found := True \<rparr> else ?p2"
    have n3: "names_ok cn fcn ?p3" using n1 by (simp add: names_ok_def)
    have t3: "tracking_of ?p3 m = tracking_of p m" by (simp add: tracking_of_def)
    show ?thesis
    proof (cases dref)
      case None
      with FileModifyCommand inc n3 t3 show ?thesis
        by (simp add: file_command_handler_def Let_def)
    next
      case (Some r)
      with assms(2) FileModifyCommand obtain c rest where r: "r = c # rest"
        by (cases r) auto
      show ?thesis
      proof (cases "c = CHR '':''")
        case True
        have "tracking_of (track_blob r ?p3) m
            = (if r = m then track_view (tracking_of p m) else tracking_of p m)"
          using t3 track_blob_view[of m ?p3] track_blob_other[of r m ?p3] by auto
        moreover have "names_ok cn fcn (track_blob r ?p3)" using n3 by (simp add: track_blob_names)
        ultimately show ?thesis
          using FileModifyCommand Some r True inc
          by (simp add: file_command_handler_def Let_def)
      next
        case False
        then have "r \<noteq> m" using r assms(3) by auto
        moreover have "names_ok cn fcn (?p3\<lparr> sha_blob_references := True \<rparr>)"
          using n3 by (simp add: names_ok_def)
        moreover have "tracking_of (?p3\<lparr> sha_blob_references := True \<rparr>) m = tracking_of p m"
          by (simp add: tracking_of_def)
        ultimately show ?thesis
          using FileModifyCommand Some r False inc
          by (simp add: file_command_handler_def Let_def)
      qed
    qed
  next
    case (FileDeleteCommand pth)
    with inc n1 t1 show ?thesis by (simp add: file_command_handler_def Let_def)
  next
    case (FileCopyCommand src dest)
    with inc n1 t1 show ?thesis
      by (simp add: file_command_handler_def Let_def names_ok_def tracking_of_def)
  next
    case (FileRenameCommand old new)
    with inc n1 t1 show ?thesis
      by (simp add: file_command_handler_def Let_def names_ok_def tracking_of_def)
  next
    case FileDeleteAllCommand
    with inc n1 t1 show ?thesis by (simp add: file_command_handler_def Let_def)
  qed
qed

lemma file_commands_loop_ok:
  assumes "m = CHR '':'' # mk"
  shows "names_ok cn fcn p \<Longrightarrow> list_all (file_command_ok fcn) fcs \<Longrightarrow>
     \<exists>p'. file_commands_loop cid fcs p = Inr p' \<and> names_ok cn fcn p'
       \<and> tracking_of p' m = (track_view ^^ length (filter (is_reference m) fcs)) (tracking_of p m)"
proof (induction fcs arbitrary: p)
  case Nil
  then show ?case by simp
next
  case (Cons fc fcs)
  from Cons.prems have ok: "file_command_ok fcn fc" and oks: "list_all (file_command_ok fcn) fcs"
    by simp_all
  from file_command_handler_ok[OF Cons.prems(1) ok assms, of cid] obtain p1 where
    h: "file_command_handler cid fc p = Inr p1" and n1: "names_ok cn fcn p1"
    and t1: "tracking_of p1 m
          = (if is_reference m fc then track_view (tracking_of p m) else tracking_of p m)"
    by blast
  from Cons.IH[OF n1 oks] obtain p' where
    l: "file_commands_loop cid fcs p1 = Inr p'" and n': "names_ok cn fcn p'"
    and t': "tracking_of p' m
         = (track_view ^^ length (filter (is_reference m) fcs)) (tracking_of p1 m)"
    by blast
  show ?case
    using h l n' t' t1 by (simp add: funpow_swap1)
qed


lemma commit_handler_ok:
  assumes "names_ok cn fcn p" "command_ok cn fcn (CommitCmd c)" "m = CHR '':'' # mk"
  shows "\<exists>p'. commit_handler c p = Inr p' \<and> names_ok cn fcn p'
       \<and> tracking_of p' m = (track_view ^^ references m (CommitCmd c)) (tracking_of p m)"
proof -
  from assms(2) have cn: "command_name (CommitCmd c) \<in> set cn"
    and fl: "list_all (file_command_ok fcn) (file_iter c)" by simp_all
  from count_command_ok[OF assms(1) cn, of m] obtain p1 where
    c1: "count_command (CommitCmd c) p = Inr p1" and n1: "names_ok cn fcn p1"
    and t1: "tracking_of p1 m = tracking_of p m" by blast
  let ?p2 = "p1\<lparr> committers := insert (committer c) (committers p1) \<rparr>"
  let ?p3 = "if author c \<noteq> None then ?p2\<lparr> separate_authors_found := True \<rparr> else ?p2"
  have n3: "names_ok cn fcn ?p3" using n1 by (simp add: names_ok_def)
  have t3: "tracking_of ?p3 m = tracking_of p m" using t1 by (simp add: tracking_of_def)
  from file_commands_loop_ok[OF assms(3) n3 fl, of "cmd_id c"] obtain p4 where
    l: "file_commands_loop (cmd_id c) (file_iter c) ?p3 = Inr p4" and n4: "names_ok cn fcn p4"
    and t4: "tracking_of p4 m
        = (track_view ^^ length (filter (is_reference m) (file_iter c))) (tracking_of ?p3 m)"
    by blast
  obtain parents mgr where th: "track_heads c (cache_mgr p4) = (parents, mgr)"
    by (cases "track_heads c (cache_mgr p4)")
  let ?p5 = "count_parents (length parents) (p4\<lparr> cache_mgr := mgr \<rparr>)"
  let ?p' = "?p5\<lparr> info_merges := fold count_merge (merges c) (info_merges ?p5) \<rparr>"
  have p': "commit_handler c p = Inr ?p'"
    using c1 l th by (simp add: commit_handler_def Let_def)
  have same: "cmd_counts ?p' = cmd_counts p4" "file_cmd_counts ?p' = file_cmd_counts p4"
      "blobs_new ?p' = blobs_new p4" "blobs_used ?p' = blobs_used p4"
      "blobs_unknown ?p' = blobs_unknown p4" "info_blob_ref_counts ?p' = info_blob_ref_counts p4"
    by (simp_all add: count_parents_def split: option.splits)
  have "names_ok cn fcn ?p'" using n4 same by (simp add: names_ok_def)
  moreover have "tracking_of ?p' m = tracking_of p4 m" using same by (simp add: tracking_of_def)
  ultimately show ?thesis using p' t4 t3 by simp
qed

lemma blob_handler_ok:
  assumes "names_ok cn fcn p" "command_ok cn fcn (BlobCommand mark i)"
  shows "\<exists>p'. blob_handler mark i p = Inr p' \<and> names_ok cn fcn p'
       \<and> tracking_of p' m
          = (if declares m (BlobCommand mark i) then declare_view (tracking_of p m)
             else tracking_of p m)"
proof -
  from assms(2) have cn: "command_name (BlobCommand mark i) \<in> set cn" by simp
  from count_command_ok[OF assms(1) cn, of m] obtain p1 where
    c1: "count_command (BlobCommand mark i) p = Inr p1" and n1: "names_ok cn fcn p1"
    and t1: "tracking_of p1 m = tracking_of p m" by blast
  show ?thesis
    using c1 n1 t1
    by (auto simp: blob_handler_def names_ok_def tracking_of_def)
qed

lemma handle_ok:
  assumes "names_ok cn fcn p" "command_ok cn fcn cmd" "m = CHR '':'' # mk"
  shows "\<exists>p'. handle cmd p = Inr p' \<and> names_ok cn fcn p'
       \<and> tracking_of p' m = view_step m cmd (tracking_of p m)"
proof (cases cmd)
  case (BlobCommand mark i)
  with blob_handler_ok[of cn fcn p mark i m] assms show ?thesis
    by (auto simp: view_step_def)
next
  case (CommitCmd c)
  with commit_handler_ok[of cn fcn p c m mk] assms show ?thesis
    by (auto simp: view_step_def)
next
  case (ResetCommand r f)
  from assms(2) ResetCommand have "command_name (ResetCommand r f) \<in> set cn" by simp
  from count_command_ok[OF assms(1) this, of m] obtain p1 where
    "count_command (ResetCommand r f) p = Inr p1" "names_ok cn fcn p1"
    "tracking_of p1 m = tracking_of p m" by blast
  with ResetCommand show ?thesis
    by (auto simp: reset_handler_def view_step_def names_ok_def tracking_of_def
        split: option.splits)
next
  case ProgressCommand
  with count_command_ok[of cn fcn p cmd m] assms show ?thesis
    by (auto simp: view_step_def)
next
  case CheckpointCommand
  with count_command_ok[of cn fcn p cmd m] assms show ?thesis
    by (auto simp: view_step_def)
next
  case TagCommand
  with count_command_ok[of cn fcn p cmd m] assms show ?thesis
    by (auto simp: view_step_def)
next
  case (FeatureCommand f)
  from assms(2) FeatureCommand have "command_name (FeatureCommand f) \<in> set cn" by simp
  from count_command_ok[OF assms(1) this, of m] obtain p1 where
    "count_command (FeatureCommand f) p = Inr p1" "names_ok cn fcn p1"
    "tracking_of p1 m = tracking_of p m" by blast
  with FeatureCommand show ?thesis
    by (auto simp: feature_handler_def view_step_def names_ok_def tracking_of_def)
qed

lemma process_ok:
  assumes "m = CHR '':'' # mk"
  shows "names_ok cn fcn p \<Longrightarrow> stream_ok cn fcn cmds \<Longrightarrow>
     \<exists>p'. process cmds p = Inr p' \<and> names_ok cn fcn p'
       \<and> tracking_of p' m = fold (view_step m) cmds (tracking_of p m)"
proof (induction cmds arbitrary: p)
  case Nil
  then show ?case by simp
next
  case (Cons cmd cmds)
  from Cons.prems have ok: "command_ok cn fcn cmd" and oks: "stream_ok cn fcn cmds"
    by (simp_all add: stream_ok_def)
  from handle_ok[OF Cons.prems(1) ok assms] obtain p1 where
    h: "handle cmd p = Inr p1" and n1: "names_ok cn fcn p1"
    and t1: "tracking_of p1 m = view_step m cmd (tracking_of p m)" by blast
  from Cons.IH[OF n1 oks] t1 h show ?case by auto
qed

lemma fold_view_step_quiet:
  "\<forall>c\<in>set cmds. \<not> declares m c \<and> references m c = 0 \<Longrightarrow> fold (view_step m) cmds v = v"
  by (induction cmds arbitrary: v) (simp_all add: view_step_def)

lemma fold_view_step_references:
  "\<forall>c\<in>set cmds. \<not> declares m c \<Longrightarrow>
     fold (view_step m) cmds v = (track_view ^^ total_references m cmds) v"
proof (induction cmds arbitrary: v)
  case Nil
  then show ?case by (simp add: total_references_def)
next
  case (Cons c cmds)
  have "(track_view ^^ (total_references m cmds + references m c)) v
      = (track_view ^^ total_references m cmds) ((track_view ^^ references m c) v)"
    by (simp add: funpow_add)
  moreover have "total_references m (c # cmds) = total_references m cmds + references m c"
    by (simp add: total_references_def)
  ultimately show ?case
    using Cons by (simp add: view_step_def)
qed

lemma track_view_declared:
  "(track_view ^^ Suc (Suc j)) (True, False, k, None) = (False, False, k, Some (int j + 2))"
  by (induction j) simp_all

lemma track_view_undeclared:
  "(track_view ^^ Suc j) (False, False, k, None) = (False, False, True, None)"
  by (induction j) simp_all


lemma stream_ok_examples:
  "stream_ok command_names file_command_names reused_mark_stream"
  "stream_ok command_names file_command_names counted_stream"
  by (simp_all add: stream_ok_def command_names_def file_command_names_def
      reused_mark_stream_def counted_stream_def commit_of_def modify_def)

text \<open>
  C10, as stated, on a stream that uses the mark \<open>:1\<close> again after its first blob has been
  consumed: the mark is referenced by two Modify file-changes, and the pass ends with no
  reference count for it and with the mark in the set \<open>used\<close>.
\<close>

theorem reused_mark_counterexample:
  "total_references '':1'' reused_mark_stream = 2
   \<and> map_sum id (\<lambda>p. (info_blob_ref_counts p '':1'', '':1'' \<in> blobs_used p))
        (process reused_mark_stream (pre_process command_names file_command_names))
      = Inr (None, True)"
proof -
  obtain p where p: "process reused_mark_stream (pre_process command_names file_command_names)
      = Inr p"
    and t: "tracking_of p '':1'' = fold (view_step '':1'') reused_mark_stream
        (tracking_of (pre_process command_names file_command_names) '':1'')"
    using process_ok[OF refl pre_process_names_ok stream_ok_examples(1), of "''1''"]
    by blast
  have "fold (view_step '':1'') reused_mark_stream (False, False, False, None)
      = (False, True, False, None)"
    by (simp add: reused_mark_stream_def view_step_def commit_of_def modify_def)
  with t have "tracking_of p '':1'' = (False, True, False, None)"
    by (simp add: pre_process_tracking)
  then have "info_blob_ref_counts p '':1'' = None \<and> '':1'' \<in> blobs_used p"
    by (simp add: tracking_of_def)
  moreover have "total_references '':1'' reused_mark_stream = 2"
    by (simp add: total_references_def reused_mark_stream_def commit_of_def modify_def)
  ultimately show ?thesis using p by simp
qed

text \<open>
  C10, amended. The stream holds commands whose names \<open>pre_process\<close> was given, and no
  Modify with an empty data reference. For a mark \<open>m\<close> (an id \<open>:mark\<close>) that exactly one
  Blob command declares, with no reference to \<open>m\<close> before it, the pass runs to its end and,
  \<open>k\<close> being the number of Modify file-changes that reference \<open>m\<close>: if \<open>k \<ge> 2\<close> then
  \<open>blob_ref_counts[m] = k\<close> and \<open>m\<close> is neither in \<open>used\<close> nor in \<open>new\<close>; if \<open>k = 1\<close> then
  \<open>m\<close> has no reference count and is in \<open>used\<close>, not in \<open>new\<close>; in both cases \<open>m\<close> is not in
  \<open>unknown\<close>. For a mark that no Blob command declares and that is referenced at least
  once, the pass runs to its end with \<open>m\<close> in \<open>unknown\<close>, in no other set and without a
  reference count.
\<close>

theorem blob_reference_counts:
  assumes "m = CHR '':'' # mk"
  shows "(stream_ok cn fcn (pre @ b # post) \<and> declares m b
          \<and> (\<forall>c\<in>set pre. \<not> declares m c \<and> references m c = 0)
          \<and> (\<forall>c\<in>set post. \<not> declares m c)
         \<longrightarrow> (\<exists>p. process (pre @ b # post) (pre_process cn fcn) = Inr p
               \<and> m \<notin> blobs_unknown p
               \<and> (2 \<le> total_references m post \<longrightarrow>
                    info_blob_ref_counts p m = Some (int (total_references m post))
                    \<and> m \<notin> blobs_used p \<and> m \<notin> blobs_new p)
               \<and> (total_references m post = 1 \<longrightarrow>
                    info_blob_ref_counts p m = None \<and> m \<in> blobs_used p \<and> m \<notin> blobs_new p)))
     \<and> (stream_ok cn fcn cmds \<and> (\<forall>c\<in>set cmds. \<not> declares m c)
          \<and> 1 \<le> total_references m cmds
         \<longrightarrow> (\<exists>p. process cmds (pre_process cn fcn) = Inr p
               \<and> m \<in> blobs_unknown p \<and> info_blob_ref_counts p m = None
               \<and> m \<notin> blobs_used p \<and> m \<notin> blobs_new p))"
proof (intro conjI impI)
  assume a: "stream_ok cn fcn (pre @ b # post) \<and> declares m b
          \<and> (\<forall>c\<in>set pre. \<not> declares m c \<and> references m c = 0)
          \<and> (\<forall>c\<in>set post. \<not> declares m c)"
  then have ok: "stream_ok cn fcn (pre @ b # post)" by simp
  from process_ok[OF assms pre_process_names_ok ok] obtain p where
    p: "process (pre @ b # post) (pre_process cn fcn) = Inr p"
    and t: "tracking_of p m = fold (view_step m) (pre @ b # post)
        (tracking_of (pre_process cn fcn) m)"
    by blast
  let ?k = "total_references m post"
  have "fold (view_step m) (pre @ b # post) (False, False, False, None)
      = (track_view ^^ ?k) (True, False, False, None)"
    using a by (simp add: fold_view_step_quiet fold_view_step_references view_step_def)
  with t have v: "tracking_of p m = (track_view ^^ ?k) (True, False, False, None)"
    by (simp add: pre_process_tracking)
  have "m \<notin> blobs_unknown p
      \<and> (2 \<le> ?k \<longrightarrow> info_blob_ref_counts p m = Some (int ?k)
            \<and> m \<notin> blobs_used p \<and> m \<notin> blobs_new p)
      \<and> (?k = 1 \<longrightarrow> info_blob_ref_counts p m = None \<and> m \<in> blobs_used p \<and> m \<notin> blobs_new p)"
  proof (cases ?k)
    case 0
    with v show ?thesis by (simp add: tracking_of_def)
  next
    case (Suc j)
    show ?thesis
    proof (cases j)
      case 0
      with Suc v show ?thesis by (simp add: tracking_of_def)
    next
      case (Suc i)
      with \<open>?k = Suc j\<close> v have "tracking_of p m = (False, False, False, Some (int i + 2))"
        by (simp only: track_view_declared)
      with Suc \<open>?k = Suc j\<close> show ?thesis by (simp add: tracking_of_def)
    qed
  qed
  with p show "\<exists>p. process (pre @ b # post) (pre_process cn fcn) = Inr p
               \<and> m \<notin> blobs_unknown p
               \<and> (2 \<le> ?k \<longrightarrow> info_blob_ref_counts p m = Some (int ?k)
                    \<and> m \<notin> blobs_used p \<and> m \<notin> blobs_new p)
               \<and> (?k = 1 \<longrightarrow>
                    info_blob_ref_counts p m = None \<and> m \<in> blobs_used p \<and> m \<notin> blobs_new p)"
    by blast
next
  assume a: "stream_ok cn fcn cmds \<and> (\<forall>c\<in>set cmds. \<not> declares m c)
          \<and> 1 \<le> total_references m cmds"
  then have ok: "stream_ok cn fcn cmds" by simp
  from process_ok[OF assms pre_process_names_ok ok] obtain p where
    p: "process cmds (pre_process cn fcn) = Inr p"
    and t: "tracking_of p m = fold (view_step m) cmds (tracking_of (pre_process cn fcn) m)"
    by blast
  from a obtain j where j: "total_references m cmds = Suc j"
    by (cases "total_references m cmds") auto
  have "fold (view_step m) cmds (False, False, False, None)
      = (track_view ^^ Suc j) (False, False, False, None)"
    using a j by (simp add: fold_view_step_references)
  with t have "tracking_of p m = (False, False, True, None)"
    by (simp only: pre_process_tracking track_view_undeclared)
  with p show "\<exists>p. process cmds (pre_process cn fcn) = Inr p
               \<and> m \<in> blobs_unknown p \<and> info_blob_ref_counts p m = None
               \<and> m \<notin> blobs_used p \<and> m \<notin> blobs_new p"
    by (auto simp: tracking_of_def)
qed

theorem blob_reference_counts_witness:
  "(\<exists>p. process counted_stream (pre_process command_names file_command_names) = Inr p
      \<and> info_blob_ref_counts p '':1'' = Some 2 \<and> '':1'' \<notin> blobs_used p)
   \<and> (\<exists>p. process counted_stream (pre_process command_names file_command_names) = Inr p
      \<and> '':3'' \<in> blobs_unknown p \<and> info_blob_ref_counts p '':3'' = None)"
proof -
  have one: "counted_stream = [] @ BlobCommand (Some ''1'') '':1'' #
      [BlobCommand (Some ''2'') '':2'',
       commit_of '':3'' [modify '':1'', modify '':2'', modify '':3''],
       commit_of '':4'' [modify '':1'']]"
    by (simp add: counted_stream_def)
  have k1: "total_references '':1'' [BlobCommand (Some ''2'') '':2'',
       commit_of '':3'' [modify '':1'', modify '':2'', modify '':3''],
       commit_of '':4'' [modify '':1'']] = 2"
    by (simp add: total_references_def commit_of_def modify_def)
  have k3: "total_references '':3'' counted_stream = 1"
    by (simp add: total_references_def counted_stream_def commit_of_def modify_def)
  have d3: "\<forall>c\<in>set counted_stream. \<not> declares '':3'' c"
    by (simp add: counted_stream_def commit_of_def)
  have first: "\<exists>p. process counted_stream (pre_process command_names file_command_names) = Inr p
      \<and> info_blob_ref_counts p '':1'' = Some 2 \<and> '':1'' \<notin> blobs_used p"
    using blob_reference_counts[of "'':1''" "''1''" command_names file_command_names
        "[]" "BlobCommand (Some ''1'') '':1''"
        "[BlobCommand (Some ''2'') '':2'',
          commit_of '':3'' [modify '':1'', modify '':2'', modify '':3''],
          commit_of '':4'' [modify '':1'']]" "[]", THEN conjunct1]
      stream_ok_examples(2) k1
    unfolding one[symmetric]
    by (auto simp: commit_of_def)
  have second: "\<exists>p. process counted_stream (pre_process command_names file_command_names) = Inr p
      \<and> '':3'' \<in> blobs_unknown p \<and> info_blob_ref_counts p '':3'' = None"
    using blob_reference_counts[of "'':3''" "''3''" command_names file_command_names
        "[]" ProgressCommand "[]" counted_stream, THEN conjunct2]
      stream_ok_examples(2) k3 d3
    by auto
  from first second show ?thesis by blast
qed


end
